theory Spec2Isabelle
  imports Complex_Main
begin

section \<open>Numbers\<close>

text \<open>
  The source computes with JavaScript numbers, which are IEEE doubles. They are modelled
  as reals extended with the three non-finite values, so that a division by zero, a read
  of an array out of range (\<open>undefined\<close>, which arithmetic turns into NaN), NaN's
  failing comparisons and the overflow of an operation on finite operands are branches
  of the model. An operation on finite operands overflows to an infinity when its exact
  result reaches \<open>2^1024 - 2^970\<close>, the point from which rounding to nearest gives an
  infinity. Rounding inside the range, underflow and the sign of zero are not modelled:
  inside the range the result is the exact one, and every zero is the positive zero.
\<close>

datatype number = Num real | PosInf | NegInf | NaN

definition overflowAt :: real where
  "overflowAt = 2 ^ 1024 - 2 ^ 970"

definition fin :: "real \<Rightarrow> number" where
  "fin r = (if overflowAt \<le> r then PosInf else if r \<le> - overflowAt then NegInf else Num r)"

text \<open>A finite number: a real inside the range of the doubles.\<close>

fun is_num :: "number \<Rightarrow> bool" where
  "is_num (Num a) = (\<bar>a\<bar> < overflowAt)"
| "is_num PosInf = False"
| "is_num NegInf = False"
| "is_num NaN = False"

fun num_neg :: "number \<Rightarrow> number" where
  "num_neg (Num a) = Num (- a)"
| "num_neg PosInf = NegInf"
| "num_neg NegInf = PosInf"
| "num_neg NaN = NaN"

fun num_add :: "number \<Rightarrow> number \<Rightarrow> number" where
  "num_add (Num a) (Num b) = fin (a + b)"
| "num_add NaN y = NaN"
| "num_add x NaN = NaN"
| "num_add PosInf NegInf = NaN"
| "num_add NegInf PosInf = NaN"
| "num_add PosInf y = PosInf"
| "num_add x PosInf = PosInf"
| "num_add NegInf y = NegInf"
| "num_add x NegInf = NegInf"

definition num_sub :: "number \<Rightarrow> number \<Rightarrow> number" where
  "num_sub x y = num_add x (num_neg y)"

fun inf_times :: "bool \<Rightarrow> real \<Rightarrow> number" where
  "inf_times positive b =
     (if b = 0 then NaN else if (0 < b) = positive then PosInf else NegInf)"

fun num_mul :: "number \<Rightarrow> number \<Rightarrow> number" where
  "num_mul (Num a) (Num b) = fin (a * b)"
| "num_mul NaN y = NaN"
| "num_mul x NaN = NaN"
| "num_mul PosInf (Num b) = inf_times True b"
| "num_mul NegInf (Num b) = inf_times False b"
| "num_mul (Num a) PosInf = inf_times True a"
| "num_mul (Num a) NegInf = inf_times False a"
| "num_mul PosInf PosInf = PosInf"
| "num_mul PosInf NegInf = NegInf"
| "num_mul NegInf PosInf = NegInf"
| "num_mul NegInf NegInf = PosInf"

fun num_div :: "number \<Rightarrow> number \<Rightarrow> number" where
  "num_div (Num a) (Num b) =
     (if b = 0 then (if a = 0 then NaN else if 0 < a then PosInf else NegInf)
      else fin (a / b))"
| "num_div NaN y = NaN"
| "num_div x NaN = NaN"
| "num_div (Num a) PosInf = Num 0"
| "num_div (Num a) NegInf = Num 0"
| "num_div PosInf (Num b) = (if 0 \<le> b then PosInf else NegInf)"
| "num_div NegInf (Num b) = (if 0 \<le> b then NegInf else PosInf)"
| "num_div PosInf PosInf = NaN"
| "num_div PosInf NegInf = NaN"
| "num_div NegInf PosInf = NaN"
| "num_div NegInf NegInf = NaN"

fun num_sqrt :: "number \<Rightarrow> number" where
  "num_sqrt (Num a) = (if a < 0 then NaN else Num (sqrt a))"
| "num_sqrt PosInf = PosInf"
| "num_sqrt NegInf = NaN"
| "num_sqrt NaN = NaN"

fun num_lt :: "number \<Rightarrow> number \<Rightarrow> bool" where
  "num_lt (Num a) (Num b) = (a < b)"
| "num_lt NaN y = False"
| "num_lt x NaN = False"
| "num_lt NegInf (Num b) = True"
| "num_lt NegInf PosInf = True"
| "num_lt (Num a) PosInf = True"
| "num_lt x NegInf = False"
| "num_lt PosInf y = False"

text \<open>The operator \<open>===\<close> on two numbers: NaN equals nothing, itself included.\<close>

fun strict_eq :: "number \<Rightarrow> number \<Rightarrow> bool" where
  "strict_eq (Num a) (Num b) = (a = b)"
| "strict_eq PosInf PosInf = True"
| "strict_eq NegInf NegInf = True"
| "strict_eq x y = False"

text \<open>The order \<open><=\<close> on two numbers: NaN is below and above nothing.\<close>

fun num_le :: "number \<Rightarrow> number \<Rightarrow> bool" where
  "num_le (Num a) (Num b) = (a \<le> b)"
| "num_le NaN y = False"
| "num_le x NaN = False"
| "num_le NegInf y = True"
| "num_le x PosInf = True"
| "num_le x NegInf = False"
| "num_le PosInf y = False"

text \<open>
  An array read \<open>xs[i]\<close>: \<open>None\<close> is JavaScript's \<open>undefined\<close>, the value of a read out
  of range. Arithmetic converts \<open>undefined\<close> to NaN; \<open>===\<close> between \<open>undefined\<close> and a
  number is false.
\<close>

definition index :: "'a list \<Rightarrow> int \<Rightarrow> 'a option" where
  "index xs i = (if 0 \<le> i \<and> i < int (length xs) then Some (xs ! nat i) else None)"

fun toNumber :: "number option \<Rightarrow> number" where
  "toNumber None = NaN"
| "toNumber (Some x) = x"

fun strict_eq_opt :: "number option \<Rightarrow> number \<Rightarrow> bool" where
  "strict_eq_opt None y = False"
| "strict_eq_opt (Some x) y = strict_eq x y"

text \<open>
  The truth value of an optional number in a condition: \<open>undefined\<close>, zero and NaN are
  falsy, every other number is truthy.
\<close>

fun truthy :: "number option \<Rightarrow> bool" where
  "truthy None = False"
| "truthy (Some (Num a)) = (a \<noteq> 0)"
| "truthy (Some NaN) = False"
| "truthy (Some PosInf) = True"
| "truthy (Some NegInf) = True"

section \<open>Data model\<close>

text \<open>
  Modelled from the spec: the declarations of \<open>Vec3\<close>, \<open>BezierCurve\<close> and \<open>Arc\<close>
  (\<open>./types\<close>) are not among the sources. A point is a triple of numbers; a curve has
  three control points and an optional cache of cumulative arc lengths; an arc has its
  curves in order and an optional cache of cumulative path lengths.
\<close>

type_synonym Vec3 = "number \<times> number \<times> number"

record BezierCurve =
  points :: "Vec3 \<times> Vec3 \<times> Vec3"
  cacheArcLengths :: "number list option"

record Arc =
  curves :: "BezierCurve list"
  cacheLengths :: "number list option"

definition curveResolution :: int where
  "curveResolution = 128"

section \<open>Points and distances\<close>

fun distanceToSquared :: "Vec3 \<Rightarrow> Vec3 \<Rightarrow> number" where
  "distanceToSquared (x1, y1, z1) (x2, y2, z2) =
     (let dx = num_sub x1 x2;
          dy = num_sub y1 y2;
          dz = num_sub z1 z2
      in num_add (num_add (num_mul dx dx) (num_mul dy dy)) (num_mul dz dz))"

definition distanceTo :: "Vec3 \<Rightarrow> Vec3 \<Rightarrow> number" where
  "distanceTo v1 v2 = num_sqrt (distanceToSquared v1 v2)"

fun equals :: "Vec3 \<Rightarrow> Vec3 \<Rightarrow> bool" where
  "equals (x1, y1, z1) (x2, y2, z2) =
     (strict_eq x1 x2 \<and> strict_eq y1 y2 \<and> strict_eq z1 z2)"

definition QuadraticBezierP0 :: "number \<Rightarrow> number \<Rightarrow> number" where
  "QuadraticBezierP0 t p = (let k = num_sub (Num 1) t in num_mul (num_mul k k) p)"

definition QuadraticBezierP1 :: "number \<Rightarrow> number \<Rightarrow> number" where
  "QuadraticBezierP1 t p =
     num_mul (num_mul (num_mul (Num 2) (num_sub (Num 1) t)) t) p"

definition QuadraticBezierP2 :: "number \<Rightarrow> number \<Rightarrow> number" where
  "QuadraticBezierP2 t p = num_mul (num_mul t t) p"

definition QuadraticBezier :: "number \<Rightarrow> number \<Rightarrow> number \<Rightarrow> number \<Rightarrow> number" where
  "QuadraticBezier t p0 p1 p2 =
     num_add (num_add (QuadraticBezierP0 t p0) (QuadraticBezierP1 t p1))
       (QuadraticBezierP2 t p2)"

definition getPointOnCurve :: "BezierCurve \<Rightarrow> number \<Rightarrow> Vec3" where
  "getPointOnCurve curve t =
     (case points curve of ((x0, y0, z0), (x1, y1, z1), (x2, y2, z2)) \<Rightarrow>
        (QuadraticBezier t x0 x1 x2,
         QuadraticBezier t y0 y1 y2,
         QuadraticBezier t z0 z1 z2))"

text \<open>
  The loop of \<open>getPointsOnCurve\<close>, from the counter \<open>d\<close> on, with the points pushed so
  far. The counters of the source are integers held in numbers; they are \<open>int\<close> here.
\<close>

function getPointsOnCurve_loop ::
  "BezierCurve \<Rightarrow> int \<Rightarrow> int \<Rightarrow> Vec3 list \<Rightarrow> Vec3 list" where
  "getPointsOnCurve_loop curve divisions d pts =
     (if d \<le> divisions
      then getPointsOnCurve_loop curve divisions (d + 1)
             (pts @ [getPointOnCurve curve
                       (num_div (Num (of_int d)) (Num (of_int divisions)))])
      else pts)"
  by pat_completeness auto
termination
  by (relation "measure (\<lambda>(curve, divisions, d, pts). nat (divisions + 1 - d))") auto

declare getPointsOnCurve_loop.simps [simp del]

definition getPointsOnCurve :: "BezierCurve \<Rightarrow> int \<Rightarrow> Vec3 list" where
  "getPointsOnCurve curve divisions = getPointsOnCurve_loop curve divisions 0 []"

section \<open>Cumulative arc lengths of a curve\<close>

text \<open>The test of the cache at the head of \<open>getCurveLengths\<close>.\<close>

definition cacheHit :: "BezierCurve \<Rightarrow> int \<Rightarrow> bool" where
  "cacheHit curve divisions =
     (case cacheArcLengths curve of
        None \<Rightarrow> False
      | Some cache \<Rightarrow> int (length cache) = divisions + 1)"

function getCurveLengths_loop ::
  "BezierCurve \<Rightarrow> int \<Rightarrow> int \<Rightarrow> Vec3 \<Rightarrow> number \<Rightarrow> number list \<Rightarrow> number list" where
  "getCurveLengths_loop curve divisions p lastp sm cache =
     (if p \<le> divisions
      then (let current = getPointOnCurve curve
                            (num_div (Num (of_int p)) (Num (of_int divisions)));
                sm' = num_add sm (distanceTo current lastp)
            in getCurveLengths_loop curve divisions (p + 1) current sm' (cache @ [sm']))
      else cache)"
  by pat_completeness auto
termination
  by (relation "measure (\<lambda>(curve, divisions, p, lastp, sm, cache). nat (divisions + 1 - p))")
    auto

declare getCurveLengths_loop.simps [simp del]

text \<open>The computation of the table when the cache does not answer.\<close>

definition computeLengths :: "BezierCurve \<Rightarrow> int \<Rightarrow> number list" where
  "computeLengths curve divisions =
     getCurveLengths_loop curve divisions 1 (getPointOnCurve curve (Num 0)) (Num 0) [Num 0]"

text \<open>
  \<open>getCurveLengths\<close> writes its result into the curve: it returns the table and the
  curve as it leaves it.
\<close>

definition getCurveLengths :: "BezierCurve \<Rightarrow> int \<Rightarrow> number list \<times> BezierCurve" where
  "getCurveLengths curve divisions =
     (case cacheArcLengths curve of
        Some cache \<Rightarrow>
          if int (length cache) = divisions + 1 then (cache, curve)
          else (let cache' = computeLengths curve divisions
                in (cache', curve\<lparr>cacheArcLengths := Some cache'\<rparr>))
      | None \<Rightarrow>
          (let cache' = computeLengths curve divisions
           in (cache', curve\<lparr>cacheArcLengths := Some cache'\<rparr>)))"

definition getCurveLength :: "BezierCurve \<Rightarrow> number option \<times> BezierCurve" where
  "getCurveLength curve =
     (let (lengths, curve') = getCurveLengths curve curveResolution
      in (index lengths (int (length lengths) - 1), curve'))"

section \<open>Cumulative lengths of a path\<close>

text \<open>
  The loop over the curves of a path: the running sum, the sums pushed so far, and the
  curves as the calls of \<open>getCurveLength\<close> leave them.
\<close>

fun getCurvePathLengths_loop ::
  "BezierCurve list \<Rightarrow> number \<Rightarrow> number list \<Rightarrow> number list \<times> BezierCurve list" where
  "getCurvePathLengths_loop [] sms lengths = (lengths, [])"
| "getCurvePathLengths_loop (c # cs) sms lengths =
     (let (len, c') = getCurveLength c;
          sms' = num_add sms (toNumber len);
          (lengths', cs') = getCurvePathLengths_loop cs sms' (lengths @ [sms'])
      in (lengths', c' # cs'))"

definition getCurvePathLengths :: "Arc \<Rightarrow> number list \<times> Arc" where
  "getCurvePathLengths curvePath =
     (case cacheLengths curvePath of
        Some cache \<Rightarrow>
          if length cache = length (curves curvePath) then (cache, curvePath)
          else (let (lengths, cs') = getCurvePathLengths_loop (curves curvePath) (Num 0) []
                in (lengths, curvePath\<lparr>curves := cs', cacheLengths := Some lengths\<rparr>))
      | None \<Rightarrow>
          (let (lengths, cs') = getCurvePathLengths_loop (curves curvePath) (Num 0) []
           in (lengths, curvePath\<lparr>curves := cs', cacheLengths := Some lengths\<rparr>)))"

definition getCurvePathLength :: "Arc \<Rightarrow> number option \<times> Arc" where
  "getCurvePathLength curvePath =
     (let (lengths, curvePath') = getCurvePathLengths curvePath
      in (index lengths (int (length lengths) - 1), curvePath'))"

section \<open>From arc-length fraction to curve parameter\<close>

text \<open>
  The target of the search: the supplied distance when it is truthy, \<open>u\<close> times the last
  entry of the table otherwise.
\<close>

definition targetArcLength :: "number list \<Rightarrow> number \<Rightarrow> number option \<Rightarrow> number" where
  "targetArcLength arcLengths u distance =
     (if truthy distance then toNumber distance
      else num_mul u (toNumber (index arcLengths (int (length arcLengths) - 1))))"

text \<open>
  The binary search, from the bounds \<open>low\<close> and \<open>high\<close> on; its value is \<open>high\<close> as the
  loop leaves it. The midpoint \<open>Math.floor(low + (high - low) / 2)\<close> of two integers
  with \<open>low \<le> high\<close> is \<open>low + (high - low) div 2\<close>.
\<close>

function search :: "number list \<Rightarrow> number \<Rightarrow> int \<Rightarrow> int \<Rightarrow> int" where
  "search arcLengths target low high =
     (if low \<le> high
      then (let i = low + (high - low) div 2;
                comparison = num_sub (toNumber (index arcLengths i)) target
            in if num_lt comparison (Num 0) then search arcLengths target (i + 1) high
               else if num_lt (Num 0) comparison then search arcLengths target low (i - 1)
               else i)
      else high)"
  by pat_completeness auto
termination
  by (relation "measure (\<lambda>(arcLengths, target, low, high). nat (high + 1 - low))") auto

declare search.simps [simp del]

definition getCurveUtoTMapping ::
  "BezierCurve \<Rightarrow> number \<Rightarrow> number option \<Rightarrow> number \<times> BezierCurve" where
  "getCurveUtoTMapping curve u distance =
     (let (arcLengths, curve') = getCurveLengths curve curveResolution;
          il = int (length arcLengths);
          target = targetArcLength arcLengths u distance;
          i = search arcLengths target 0 (il - 1)
      in if strict_eq_opt (index arcLengths i) target
         then (num_div (Num (of_int i)) (Num (of_int (il - 1))), curve')
         else (let lengthBefore = toNumber (index arcLengths i);
                   lengthAfter = toNumber (index arcLengths (i + 1));
                   segmentLength = num_sub lengthAfter lengthBefore;
                   segmentFraction = num_div (num_sub target lengthBefore) segmentLength;
                   t = num_div (num_add (Num (of_int i)) segmentFraction)
                         (Num (of_int (il - 1)))
               in (t, curve')))"

section \<open>Constellation of an arc\<close>

text \<open>
  The inner loop over the points of one curve: the output so far and \<open>last\<close>, which is
  \<open>undefined\<close> (\<open>None\<close>) until a point has been pushed. An array is truthy, so
  \<open>last && equals(last, point)\<close> is \<open>equals\<close> once \<open>last\<close> is set.
\<close>

fun pushPoints :: "Vec3 list \<Rightarrow> Vec3 list \<times> Vec3 option \<Rightarrow> Vec3 list \<times> Vec3 option" where
  "pushPoints [] (out, lastp) = (out, lastp)"
| "pushPoints (point # pts) (out, lastp) =
     (if (case lastp of None \<Rightarrow> False | Some l \<Rightarrow> equals l point)
      then pushPoints pts (out, lastp)
      else pushPoints pts (out @ [point], Some point))"

fun arcToConstellation_loop ::
  "BezierCurve list \<Rightarrow> int \<Rightarrow> Vec3 list \<times> Vec3 option \<Rightarrow> Vec3 list \<times> Vec3 option" where
  "arcToConstellation_loop [] divisions st = st"
| "arcToConstellation_loop (curve # cs) divisions st =
     arcToConstellation_loop cs divisions (pushPoints (getPointsOnCurve curve divisions) st)"

definition arcToConstellation :: "Arc \<Rightarrow> int \<Rightarrow> Vec3 list" where
  "arcToConstellation curvePath divisions =
     fst (arcToConstellation_loop (curves curvePath) divisions ([], None))"




section \<open>Well-formed inputs and auxiliary notions\<close>

text \<open>
  The specification's points have real coordinates: a point is finite when its three
  coordinates are finite numbers, a curve when its three control points are.
\<close>

fun finiteVec :: "Vec3 \<Rightarrow> bool" where
  "finiteVec (x, y, z) = (is_num x \<and> is_num y \<and> is_num z)"

definition finiteCurve :: "BezierCurve \<Rightarrow> bool" where
  "finiteCurve curve =
     (case points curve of (v0, v1, v2) \<Rightarrow> finiteVec v0 \<and> finiteVec v1 \<and> finiteVec v2)"

text \<open>The sample number \<open>k\<close> of \<open>d\<close> divisions, and the chord that ends there.\<close>

definition sample :: "BezierCurve \<Rightarrow> int \<Rightarrow> int \<Rightarrow> Vec3" where
  "sample c d k = getPointOnCurve c (num_div (Num (of_int k)) (Num (of_int d)))"

definition segment :: "BezierCurve \<Rightarrow> int \<Rightarrow> int \<Rightarrow> number" where
  "segment c d k = distanceTo (sample c d k) (sample c d (k - 1))"


text \<open>The running sums of a list of numbers, from a start value on.\<close>

fun cumul :: "number \<Rightarrow> number list \<Rightarrow> number list" where
  "cumul s [] = []"
| "cumul s (y # ys) = num_add s y # cumul (num_add s y) ys"

text \<open>
  What a square root can be, and so what a distance and a sum of distances can be: a
  number that is not negative, the positive infinity, or NaN.
\<close>

fun chordLike :: "number \<Rightarrow> bool" where
  "chordLike (Num a) = (0 \<le> a)"
| "chordLike PosInf = True"
| "chordLike NegInf = False"
| "chordLike NaN = True"

text \<open>
  The caches are written by the functions above only. A curve's cache is valid when it
  is absent or is the table the curve computes at the cache's own resolution; a path's
  cache is valid when it is absent, or has another size than the path, or holds the sums
  the path computes.
\<close>

definition cacheValid :: "BezierCurve \<Rightarrow> bool" where
  "cacheValid c =
     (case cacheArcLengths c of
        None \<Rightarrow> True
      | Some ls \<Rightarrow> ls = computeLengths c (int (length ls) - 1))"

definition pathCacheValid :: "Arc \<Rightarrow> bool" where
  "pathCacheValid p =
     (case cacheLengths p of
        None \<Rightarrow> True
      | Some ls \<Rightarrow> length ls = length (curves p) \<longrightarrow>
          ls = fst (getCurvePathLengths_loop (curves p) (Num 0) []))"

text \<open>
  The two outcomes of a probe of the search that move a bound: the entry is below the
  target, the entry is above it.
\<close>

definition below :: "number \<Rightarrow> number \<Rightarrow> bool" where
  "below target a = num_lt (num_sub a target) (Num 0)"

definition above :: "number \<Rightarrow> number \<Rightarrow> bool" where
  "above target a = num_lt (Num 0) (num_sub a target)"

text \<open>
  What \<open>getCurveUtoTMapping\<close> returns on a table of reals \<open>rs\<close> for the target
  \<open>t\<close>, when the search ends at \<open>h\<close>: the normalised index at an exact match, the
  interpolated one between two entries that enclose the target.
\<close>

definition bracket :: "real list \<Rightarrow> real \<Rightarrow> nat \<Rightarrow> real \<Rightarrow> bool" where
  "bracket rs t h r \<longleftrightarrow>
     (h < length rs \<and> rs ! h = t \<and> r = real h / real (length rs - 1)) \<or>
     (Suc h < length rs \<and> rs ! h < t \<and> t < rs ! Suc h \<and>
      r = (real h + (t - rs ! h) / (rs ! Suc h - rs ! h)) / real (length rs - 1))"

text \<open>
  Three curves for concrete runs: a single point, a straight line of length 128, and a
  straight line of length \<open>2^601\<close>, whose chords have squares beyond the range.
\<close>

definition zeroCurve :: BezierCurve where
  "zeroCurve =
     \<lparr>points = ((Num 0, Num 0, Num 0), (Num 0, Num 0, Num 0), (Num 0, Num 0, Num 0)),
      cacheArcLengths = None\<rparr>"

definition lineCurve :: BezierCurve where
  "lineCurve =
     \<lparr>points = ((Num 0, Num 0, Num 0), (Num 64, Num 0, Num 0), (Num 128, Num 0, Num 0)),
      cacheArcLengths = None\<rparr>"

definition bigCurve :: BezierCurve where
  "bigCurve =
     \<lparr>points = ((Num 0, Num 0, Num 0), (Num (2 ^ 600), Num 0, Num 0),
                (Num (2 ^ 601), Num 0, Num 0)),
      cacheArcLengths = None\<rparr>"

text \<open>
  The tables of the two lines at the default resolution: the integers from 0 to 128,
  and 0 followed by 128 times the positive infinity.
\<close>

definition lineTable :: "number list" where
  "lineTable = map (\<lambda>k. Num (of_int k)) [0..128]"

definition bigTable :: "number list" where
  "bigTable = Num 0 # replicate 128 PosInf"

section \<open>Arithmetic inside the range\<close>

lemma overflowAt_large: "2 ^ 1023 < overflowAt"
  by (simp add: overflowAt_def)

lemma overflowAt_gt_1024: "1024 < overflowAt"
proof -
  have "(1024::real) \<le> 2 ^ 1023" by simp
  with overflowAt_large show ?thesis by linarith
qed

lemma fin_Num: "\<bar>r\<bar> < overflowAt \<Longrightarrow> fin r = Num r"
  by (auto simp: fin_def)

lemma fin_1024: "\<bar>r\<bar> \<le> 1024 \<Longrightarrow> fin r = Num r"
  using overflowAt_gt_1024 by (intro fin_Num) linarith

lemma fin_eq_Num: "fin r = Num s \<longleftrightarrow> s = r \<and> \<bar>r\<bar> < overflowAt"
  using overflowAt_gt_1024 by (auto simp: fin_def)


lemma is_num_iff: "is_num x \<longleftrightarrow> (\<exists>a. x = Num a \<and> \<bar>a\<bar> < overflowAt)"
  by (cases x) auto

lemma finiteVec_iff:
  "finiteVec v \<longleftrightarrow>
     (\<exists>x y z. v = (Num x, Num y, Num z) \<and> \<bar>x\<bar> < overflowAt \<and> \<bar>y\<bar> < overflowAt \<and>
        \<bar>z\<bar> < overflowAt)"
  by (cases v) (auto simp: is_num_iff)

section \<open>The constellation has no adjacent repeats\<close>








lemmas bezier_defs =
  getPointOnCurve_def QuadraticBezier_def QuadraticBezierP0_def QuadraticBezierP1_def
  QuadraticBezierP2_def num_sub_def



section \<open>Sampling a curve\<close>

text \<open>
  C9. The curve with control points (0,0,0), (1,1,0), (2,0,0), sampled with two
  divisions, gives the three points (0,0,0), (1,1/2,0), (2,0,0), which are the values of
  the quadratic formula at 0, 1/2 and 1.
\<close>

theorem getPointsOnCurve_scenario:
  "getPointsOnCurve
     \<lparr>points = ((Num 0, Num 0, Num 0), (Num 1, Num 1, Num 0), (Num 2, Num 0, Num 0)),
      cacheArcLengths = cache\<rparr> 2 =
     [(Num 0, Num 0, Num 0), (Num 1, Num (1 / 2), Num 0), (Num 2, Num 0, Num 0)] \<and>
   [(Num 0, Num 0, Num 0), (Num 1, Num (1 / 2), Num 0), (Num 2, Num 0, Num 0)] =
     map (getPointOnCurve
            \<lparr>points = ((Num 0, Num 0, Num 0), (Num 1, Num 1, Num 0), (Num 2, Num 0, Num 0)),
             cacheArcLengths = cache\<rparr>)
       [Num 0, Num (1 / 2), Num 1]"
  by (simp add: getPointsOnCurve_def getPointsOnCurve_loop.simps bezier_defs fin_1024)

section \<open>The constellation of an empty path\<close>

text \<open>
  C10. Whatever the number of divisions, a path with no curves has the empty
  constellation.
\<close>

theorem arcToConstellation_empty:
  "arcToConstellation \<lparr>curves = [], cacheLengths = cache\<rparr> divisions = []"
  by (simp add: arcToConstellation_def)

section \<open>Finite curves have finite samples\<close>

text \<open>
  At a parameter between 0 and 1 the value of the quadratic formula on three finite
  coordinates is the exact one: the three weights are not negative and their sum is 1,
  so that no intermediate result leaves the range.
\<close>

lemma QuadraticBezier_Num:
  assumes t: "0 \<le> t" "t \<le> 1"
    and a: "\<bar>a\<bar> < overflowAt" and b: "\<bar>b\<bar> < overflowAt" and c: "\<bar>c\<bar> < overflowAt"
  shows "QuadraticBezier (Num t) (Num a) (Num b) (Num c) =
           Num ((1 - t) * (1 - t) * a + 2 * (1 - t) * t * b + t * t * c) \<and>
         \<bar>(1 - t) * (1 - t) * a + 2 * (1 - t) * t * b + t * t * c\<bar> < overflowAt"
proof -
  define k where "k = 1 - t"
  define M where "M = max \<bar>a\<bar> (max \<bar>b\<bar> \<bar>c\<bar>)"
  have k: "0 \<le> k" "k \<le> 1" using t by (simp_all add: k_def)
  have M: "\<bar>a\<bar> \<le> M" "\<bar>b\<bar> \<le> M" "\<bar>c\<bar> \<le> M" "0 \<le> M" "M < overflowAt"
    using a b c by (auto simp: M_def)
  have one: "(1::real) < overflowAt" using overflowAt_gt_1024 by linarith
  have kk: "0 \<le> k * k" "k * k \<le> 1" using k by (simp_all add: mult_le_one)
  have tt: "0 \<le> t * t" "t * t \<le> 1" using t by (simp_all add: mult_le_one)
  have kt: "0 \<le> 2 * k * t" using k t by simp
  have "0 \<le> k * k + t * t" using kk tt by simp
  moreover have "k * k + t * t = 1 - 2 * k * t" by (simp add: k_def algebra_simps)
  ultimately have kt1: "2 * k * t \<le> 1" by simp
  have w: "k * k + 2 * k * t + t * t = 1" by (simp add: k_def algebra_simps)
  have scale: "\<bar>w * x\<bar> \<le> w * M" if "0 \<le> w" "\<bar>x\<bar> \<le> M" for w x
    using that by (simp add: abs_mult mult_left_mono)
  have A: "\<bar>k * k * a\<bar> \<le> k * k * M" using kk(1) M(1) by (rule scale)
  have B: "\<bar>2 * k * t * b\<bar> \<le> 2 * k * t * M" using kt M(2) by (rule scale)
  have C: "\<bar>t * t * c\<bar> \<le> t * t * M" using tt(1) M(3) by (rule scale)
  have le1: "w * M \<le> M" if "w \<le> 1" for w
    using mult_right_mono [OF that M(4)] by simp
  have rA: "\<bar>k * k * a\<bar> < overflowAt" using A le1 [OF kk(2)] M(5) by linarith
  have rB: "\<bar>2 * k * t * b\<bar> < overflowAt" using B le1 [OF kt1] M(5) by linarith
  have rC: "\<bar>t * t * c\<bar> < overflowAt" using C le1 [OF tt(2)] M(5) by linarith
  have "k * k * M + 2 * k * t * M = (k * k + 2 * k * t) * M" by (simp add: algebra_simps)
  moreover have "k * k + 2 * k * t \<le> 1" using w tt(1) by linarith
  ultimately have "k * k * M + 2 * k * t * M \<le> M" using le1 by simp
  then have rAB: "\<bar>k * k * a + 2 * k * t * b\<bar> < overflowAt" using A B M(5) by linarith
  have "k * k * M + 2 * k * t * M + t * t * M = (k * k + 2 * k * t + t * t) * M"
    by (simp add: algebra_simps)
  then have "k * k * M + 2 * k * t * M + t * t * M = M" using w by simp
  then have rABC: "\<bar>k * k * a + 2 * k * t * b + t * t * c\<bar> < overflowAt"
    using A B C M(5) by linarith
  have r1: "\<bar>k\<bar> < overflowAt" "\<bar>k * k\<bar> < overflowAt" "\<bar>2 * k\<bar> < overflowAt"
    "\<bar>2 * k * t\<bar> < overflowAt" "\<bar>t * t\<bar> < overflowAt"
    using k kk tt kt kt1 overflowAt_gt_1024 by linarith+
  have P0: "QuadraticBezierP0 (Num t) (Num a) = Num (k * k * a)"
    using r1 rA by (simp add: QuadraticBezierP0_def num_sub_def fin_Num k_def)
  have P1: "QuadraticBezierP1 (Num t) (Num b) = Num (2 * k * t * b)"
    using r1 rB by (simp add: QuadraticBezierP1_def num_sub_def fin_Num k_def)
  have P2: "QuadraticBezierP2 (Num t) (Num c) = Num (t * t * c)"
    using r1 rC by (simp add: QuadraticBezierP2_def fin_Num)
  have "QuadraticBezier (Num t) (Num a) (Num b) (Num c) =
      Num (k * k * a + 2 * k * t * b + t * t * c)"
    unfolding QuadraticBezier_def P0 P1 P2 using rAB rABC by (simp add: fin_Num)
  with rABC show ?thesis by (simp add: k_def)
qed


lemma QuadraticBezier_start:
  assumes "\<bar>a\<bar> < overflowAt" and "\<bar>b\<bar> < overflowAt" and "\<bar>c\<bar> < overflowAt"
  shows "QuadraticBezier (Num 0) (Num a) (Num b) (Num c) = Num a"
proof -
  have "QuadraticBezier (Num 0) (Num a) (Num b) (Num c) =
      Num ((1 - 0) * (1 - 0) * a + 2 * (1 - 0) * 0 * b + 0 * 0 * c)"
    using QuadraticBezier_Num [OF _ _ assms, of 0] by (simp only: order_refl zero_le_one simp_thms)
  then show ?thesis by simp
qed

lemma QuadraticBezier_end:
  assumes "\<bar>a\<bar> < overflowAt" and "\<bar>b\<bar> < overflowAt" and "\<bar>c\<bar> < overflowAt"
  shows "QuadraticBezier (Num 1) (Num a) (Num b) (Num c) = Num c"
proof -
  have "QuadraticBezier (Num 1) (Num a) (Num b) (Num c) =
      Num ((1 - 1) * (1 - 1) * a + 2 * (1 - 1) * 1 * b + 1 * 1 * c)"
    using QuadraticBezier_Num [OF _ _ assms, of 1] by (simp only: order_refl zero_le_one simp_thms)
  then show ?thesis by simp
qed

lemma getPointOnCurve_start:
  assumes "finiteCurve c" and "points c = (v0, v1, v2)"
  shows "getPointOnCurve c (Num 0) = v0"
proof -
  obtain v0' v1' v2' where p': "points c = (v0', v1', v2')" by (cases "points c") auto
  with assms(1) have f: "finiteVec v0'" "finiteVec v1'" "finiteVec v2'"
    by (simp_all add: finiteCurve_def)
  from f(1) obtain x0 y0 z0 where v0: "v0' = (Num x0, Num y0, Num z0)"
      "\<bar>x0\<bar> < overflowAt" "\<bar>y0\<bar> < overflowAt" "\<bar>z0\<bar> < overflowAt"
    unfolding finiteVec_iff by blast
  from f(2) obtain x1 y1 z1 where v1: "v1' = (Num x1, Num y1, Num z1)"
      "\<bar>x1\<bar> < overflowAt" "\<bar>y1\<bar> < overflowAt" "\<bar>z1\<bar> < overflowAt"
    unfolding finiteVec_iff by blast
  from f(3) obtain x2 y2 z2 where v2: "v2' = (Num x2, Num y2, Num z2)"
      "\<bar>x2\<bar> < overflowAt" "\<bar>y2\<bar> < overflowAt" "\<bar>z2\<bar> < overflowAt"
    unfolding finiteVec_iff by blast
  have p: "points c =
      ((Num x0, Num y0, Num z0), (Num x1, Num y1, Num z1), (Num x2, Num y2, Num z2))"
    by (simp only: p' v0(1) v1(1) v2(1))
  have "getPointOnCurve c (Num 0) = (Num x0, Num y0, Num z0)"
    by (simp only: getPointOnCurve_def p prod.case QuadraticBezier_start [OF v0(2) v1(2) v2(2)]
        QuadraticBezier_start [OF v0(3) v1(3) v2(3)] QuadraticBezier_start [OF v0(4) v1(4) v2(4)])
  with assms(2) p show ?thesis by simp
qed

lemma getPointOnCurve_end:
  assumes "finiteCurve c" and "points c = (v0, v1, v2)"
  shows "getPointOnCurve c (Num 1) = v2"
proof -
  obtain v0' v1' v2' where p': "points c = (v0', v1', v2')" by (cases "points c") auto
  with assms(1) have f: "finiteVec v0'" "finiteVec v1'" "finiteVec v2'"
    by (simp_all add: finiteCurve_def)
  from f(1) obtain x0 y0 z0 where v0: "v0' = (Num x0, Num y0, Num z0)"
      "\<bar>x0\<bar> < overflowAt" "\<bar>y0\<bar> < overflowAt" "\<bar>z0\<bar> < overflowAt"
    unfolding finiteVec_iff by blast
  from f(2) obtain x1 y1 z1 where v1: "v1' = (Num x1, Num y1, Num z1)"
      "\<bar>x1\<bar> < overflowAt" "\<bar>y1\<bar> < overflowAt" "\<bar>z1\<bar> < overflowAt"
    unfolding finiteVec_iff by blast
  from f(3) obtain x2 y2 z2 where v2: "v2' = (Num x2, Num y2, Num z2)"
      "\<bar>x2\<bar> < overflowAt" "\<bar>y2\<bar> < overflowAt" "\<bar>z2\<bar> < overflowAt"
    unfolding finiteVec_iff by blast
  have p: "points c =
      ((Num x0, Num y0, Num z0), (Num x1, Num y1, Num z1), (Num x2, Num y2, Num z2))"
    by (simp only: p' v0(1) v1(1) v2(1))
  have "getPointOnCurve c (Num 1) = (Num x2, Num y2, Num z2)"
    by (simp only: getPointOnCurve_def p prod.case QuadraticBezier_end [OF v0(2) v1(2) v2(2)]
        QuadraticBezier_end [OF v0(3) v1(3) v2(3)] QuadraticBezier_end [OF v0(4) v1(4) v2(4)])
  with assms(2) p show ?thesis by simp
qed

lemma num_div_int:
  assumes "0 \<le> k" and "k \<le> d" and "1 \<le> d"
  shows "num_div (Num (of_int k)) (Num (of_int d)) = Num (of_int k / of_int d)"
proof -
  have "\<bar>real_of_int k / real_of_int d\<bar> \<le> 1" using assms by simp
  then have "fin (real_of_int k / real_of_int d) = Num (real_of_int k / real_of_int d)"
    by (intro fin_1024) linarith
  then show ?thesis using assms(3) by simp
qed


lemma equals_refl: "finiteVec v \<Longrightarrow> equals v v"
  by (auto simp: finiteVec_iff)

section \<open>The samples of a curve\<close>

lemma getPointsOnCurve_loop_eq:
  "getPointsOnCurve_loop c n d pts = pts @ map (sample c n) [d..n]"
proof (induction c n d pts rule: getPointsOnCurve_loop.induct)
  case (1 c n d pts)
  show ?case
  proof (cases "d \<le> n")
    case True
    then show ?thesis
      using 1 by (subst getPointsOnCurve_loop.simps) (simp add: upto_rec1 sample_def)
  next
    case False
    then show ?thesis by (subst getPointsOnCurve_loop.simps) simp
  qed
qed

lemma getPointsOnCurve_eq: "getPointsOnCurve c n = map (sample c n) [0..n]"
  by (simp add: getPointsOnCurve_def getPointsOnCurve_loop_eq)


lemma length_getPointsOnCurve: "0 \<le> d \<Longrightarrow> length (getPointsOnCurve c d) = nat d + 1"
  by (simp add: getPointsOnCurve_eq)


lemma sample_0: "1 \<le> d \<Longrightarrow> sample c d 0 = getPointOnCurve c (Num 0)"
  using num_div_int [of 0 d] by (simp add: sample_def)

lemma sample_d: "1 \<le> d \<Longrightarrow> sample c d d = getPointOnCurve c (Num 1)"
  using num_div_int [of d d] by (simp add: sample_def)

text \<open>
  C7. For every curve with finite control points and every integer \<open>d \<ge> 1\<close>, the
  samples of the curve at \<open>d\<close> divisions are \<open>d + 1\<close> points, the first of which is the
  start control point and the last of which is the end control point.
\<close>

theorem getPointsOnCurve_endpoints:
  assumes "finiteCurve c" and "points c = (v0, v1, v2)" and "1 \<le> d"
  shows "length (getPointsOnCurve c d) = nat d + 1 \<and>
         hd (getPointsOnCurve c d) = v0 \<and> last (getPointsOnCurve c d) = v2 \<and>
         equals (hd (getPointsOnCurve c d)) v0 \<and> equals (last (getPointsOnCurve c d)) v2"
proof -
  have e: "getPointsOnCurve c d = map (sample c d) [0..d]" by (rule getPointsOnCurve_eq)
  have l: "length (getPointsOnCurve c d) = nat d + 1" using assms(3) by (simp add: e)
  have u0: "[0..d] = 0 # [1..d]" using assms(3) by (simp add: upto_rec1)
  have u1: "[0..d] = [0..d - 1] @ [d]" using assms(3) by (simp add: upto_rec2)
  have h: "hd (getPointsOnCurve c d) = sample c d 0" unfolding e u0 by simp
  have la: "last (getPointsOnCurve c d) = sample c d d" unfolding e u1 by simp
  have f0: "sample c d 0 = v0" using assms by (simp add: sample_0 getPointOnCurve_start)
  have fd: "sample c d d = v2" using assms by (simp add: sample_d getPointOnCurve_end)
  have "finiteVec v0" "finiteVec v2" using assms(1,2) by (simp_all add: finiteCurve_def)
  then have "equals v0 v0" "equals v2 v2" by (simp_all add: equals_refl)
  then show ?thesis using l h la f0 fd by simp
qed

theorem getPointsOnCurve_endpoints_witness:
  "hd (getPointsOnCurve
         \<lparr>points = ((Num 0, Num 0, Num 0), (Num 1, Num 1, Num 0), (Num 2, Num 0, Num 0)),
          cacheArcLengths = None\<rparr> 2) = (Num 0, Num 0, Num 0) \<and>
   last (getPointsOnCurve
         \<lparr>points = ((Num 0, Num 0, Num 0), (Num 1, Num 1, Num 0), (Num 2, Num 0, Num 0)),
          cacheArcLengths = None\<rparr> 2) = (Num 2, Num 0, Num 0)"
proof -
  have "(0::real) < overflowAt" "(1::real) < overflowAt" "(2::real) < overflowAt"
    using overflowAt_gt_1024 by simp_all
  then show ?thesis
    using getPointsOnCurve_endpoints
      [of "\<lparr>points = ((Num 0, Num 0, Num 0), (Num 1, Num 1, Num 0), (Num 2, Num 0, Num 0)),
            cacheArcLengths = None\<rparr>"
          "(Num 0, Num 0, Num 0)" "(Num 1, Num 1, Num 0)" "(Num 2, Num 0, Num 0)" 2]
    by (simp add: finiteCurve_def)
qed

section \<open>The cache of a curve\<close>

lemma length_getCurveLengths_loop:
  "length (getCurveLengths_loop c d p lastp sm cache) = length cache + nat (d + 1 - p)"
proof (induction c d p lastp sm cache rule: getCurveLengths_loop.induct)
  case (1 c d p lastp sm cache)
  show ?case
  proof (cases "p \<le> d")
    case True
    then show ?thesis using 1 by (subst getCurveLengths_loop.simps) (simp add: Let_def)
  next
    case False
    then show ?thesis by (subst getCurveLengths_loop.simps) simp
  qed
qed

lemma length_computeLengths: "0 \<le> d \<Longrightarrow> int (length (computeLengths c d)) = d + 1"
  by (simp add: computeLengths_def length_getCurveLengths_loop)

lemma getCurveLengths_cases:
  "getCurveLengths c d =
     (if cacheHit c d then (the (cacheArcLengths c), c)
      else (computeLengths c d, c\<lparr>cacheArcLengths := Some (computeLengths c d)\<rparr>))"
  by (simp add: getCurveLengths_def cacheHit_def Let_def split: option.splits)

lemma getCurveLengths_hit:
  assumes "0 \<le> d" and "getCurveLengths c d = (ls, c')"
  shows "cacheArcLengths c' = Some ls \<and> int (length ls) = d + 1 \<and> points c' = points c"
  using assms
  by (auto simp: getCurveLengths_def Let_def length_computeLengths
      split: option.splits if_splits)

lemma getCurveLengths_cached:
  assumes "cacheArcLengths k = Some xs" and "int (length xs) = d + 1"
  shows "getCurveLengths k d = (xs, k)"
  using assms by (simp add: getCurveLengths_def)

text \<open>
  C5, as the code has it. A curve has one cache, keyed by its length. A call at a count
  \<open>d \<ge> 0\<close> leaves its table in the curve's cache. A curve whose cache holds a sequence
  of \<open>d + 1\<close> entries, whatever they are and whatever the control points, gets that
  sequence back from a call at \<open>d\<close> and is left as it is; so every further query at \<open>d\<close>
  returns the cached sequence, as long as none at another count comes in between. At
  the default count the curve's length is the last cached entry and the parameter is
  computed from the cached sequence: neither depends on the control points.
\<close>

theorem getCurveLengths_cache_reuse:
  assumes "0 \<le> d" and "getCurveLengths c d = (ls, c')"
    and "cacheArcLengths k = Some xs" and "int (length xs) = d + 1"
  shows "cacheArcLengths c' = Some ls \<and> int (length ls) = d + 1 \<and> cacheHit c' d \<and>
         getCurveLengths c' d = (ls, c') \<and>
         cacheHit k d \<and> getCurveLengths k d = (xs, k) \<and>
         getCurveLengths (k\<lparr>points := pts\<rparr>) d = (xs, k\<lparr>points := pts\<rparr>) \<and>
         (d = curveResolution \<longrightarrow>
            getCurveLength k = (index xs (int (length xs) - 1), k) \<and>
            snd (getCurveUtoTMapping k u distance) = k \<and>
            fst (getCurveUtoTMapping (k\<lparr>points := pts\<rparr>) u distance) =
              fst (getCurveUtoTMapping k u distance))"
proof -
  from getCurveLengths_hit [OF assms(1,2)]
  have h: "cacheArcLengths c' = Some ls" "int (length ls) = d + 1" by simp_all
  then have hit: "cacheHit c' d" by (simp add: cacheHit_def)
  have again: "getCurveLengths c' d = (ls, c')" using h by (rule getCurveLengths_cached)
  have khit: "cacheHit k d" using assms(3,4) by (simp add: cacheHit_def)
  have k: "getCurveLengths k d = (xs, k)" using assms(3,4) by (rule getCurveLengths_cached)
  have k': "getCurveLengths (k\<lparr>points := pts\<rparr>) d = (xs, k\<lparr>points := pts\<rparr>)"
    using assms(3,4) by (intro getCurveLengths_cached) simp_all
  have "getCurveLength k = (index xs (int (length xs) - 1), k)" if "d = curveResolution"
    using k that by (simp add: getCurveLength_def)
  moreover have "snd (getCurveUtoTMapping k u distance) = k" if "d = curveResolution"
    using k that by (simp add: getCurveUtoTMapping_def Let_def)
  moreover have "fst (getCurveUtoTMapping (k\<lparr>points := pts\<rparr>) u distance) =
      fst (getCurveUtoTMapping k u distance)" if "d = curveResolution"
    using k k' that by (simp add: getCurveUtoTMapping_def Let_def)
  ultimately show ?thesis using h hit again khit k k' by blast
qed

lemma getCurveLengths_zeroCurve_1:
  "getCurveLengths zeroCurve 1 =
     ([Num 0, Num 0], zeroCurve\<lparr>cacheArcLengths := Some [Num 0, Num 0]\<rparr>)"
  by (simp add: getCurveLengths_cases cacheHit_def zeroCurve_def computeLengths_def
      getCurveLengths_loop.simps Let_def bezier_defs distanceTo_def fin_1024)

theorem getCurveLengths_cache_reuse_witness:
  "getCurveLengths (zeroCurve\<lparr>cacheArcLengths := Some [Num 0, Num 0]\<rparr>) 1 =
     ([Num 0, Num 0], zeroCurve\<lparr>cacheArcLengths := Some [Num 0, Num 0]\<rparr>) \<and>
   getCurveLengths (zeroCurve\<lparr>cacheArcLengths := Some [Num 7, Num 8]\<rparr>) 1 =
     ([Num 7, Num 8], zeroCurve\<lparr>cacheArcLengths := Some [Num 7, Num 8]\<rparr>)"
  using getCurveLengths_cache_reuse
    [OF _ getCurveLengths_zeroCurve_1,
     of "zeroCurve\<lparr>cacheArcLengths := Some [Num 7, Num 8]\<rparr>" "[Num 7, Num 8]"]
  by simp

text \<open>
  C5 as stated fails: after a query at one division and a query at two, the cache holds
  the table of the second, a third query at one division misses it and writes the cache
  again.
\<close>

theorem getCurveLengths_cache_counterexample:
  "cacheHit (snd (getCurveLengths zeroCurve 1)) 1 \<and>
   \<not> cacheHit (snd (getCurveLengths (snd (getCurveLengths zeroCurve 1)) 2)) 1 \<and>
   snd (getCurveLengths (snd (getCurveLengths (snd (getCurveLengths zeroCurve 1)) 2)) 1) \<noteq>
     snd (getCurveLengths (snd (getCurveLengths zeroCurve 1)) 2)"
  by (simp add: getCurveLengths_cases cacheHit_def zeroCurve_def computeLengths_def
      getCurveLengths_loop.simps Let_def bezier_defs distanceTo_def fin_1024)


section \<open>Running sums\<close>




lemma cumul_append:
  "cumul s (xs @ ys) = cumul s xs @ cumul (foldl num_add s xs) ys"
  by (induction xs arbitrary: s) simp_all

lemma chordLike_sqrt: "chordLike (num_sqrt x)"
  by (cases x) simp_all

lemma chordLike_distanceTo: "chordLike (distanceTo v w)"
  by (simp add: distanceTo_def chordLike_sqrt)







text \<open>
  A running sum that is not a finite number stays so; a last sum that is a finite number
  has only finite sums before it, in non-decreasing order.
\<close>

lemma num_add_not_Num: "\<forall>r. s \<noteq> Num r \<Longrightarrow> \<forall>r. num_add s y \<noteq> Num r"
  by (cases s; cases y) simp_all

lemma cumul_not_Num: "\<forall>r. s \<noteq> Num r \<Longrightarrow> \<forall>r. last (s # cumul s ys) \<noteq> Num r"
proof (induction ys arbitrary: s)
  case Nil
  then show ?case by simp
next
  case (Cons y ys)
  from Cons.IH [OF num_add_not_Num [OF Cons.prems], of y] show ?case by simp
qed

lemma num_add_Num_inv:
  assumes "num_add (Num a) y = Num a'" and "chordLike y"
  shows "\<exists>r. y = Num r \<and> 0 \<le> r \<and> a' = a + r \<and> \<bar>a'\<bar> < overflowAt"
  using assms by (cases y) (auto simp: fin_eq_Num)

lemma cumul_Num:
  assumes "\<forall>y\<in>set ys. chordLike y" and "last (Num a # cumul (Num a) ys) = Num L"
  shows "\<exists>rs. Num a # cumul (Num a) ys = map Num rs \<and> sorted rs \<and> hd rs = a \<and>
           (\<forall>r\<in>set rs. a \<le> r) \<and> (\<forall>r\<in>set (tl rs). \<bar>r\<bar> < overflowAt)"
  using assms
proof (induction ys arbitrary: a)
  case Nil
  then show ?case by (intro exI [of _ "[a]"]) simp
next
  case (Cons y ys)
  let ?s = "num_add (Num a) y"
  have la: "last (?s # cumul ?s ys) = Num L" using Cons.prems(2) by simp
  obtain a' where a': "?s = Num a'"
    using cumul_not_Num [of ?s ys] la by (cases ?s) auto
  from num_add_Num_inv [OF a'] Cons.prems(1) obtain r where
    r: "y = Num r" "0 \<le> r" "a' = a + r" "\<bar>a'\<bar> < overflowAt"
    by auto
  have ys: "\<forall>y\<in>set ys. chordLike y" using Cons.prems(1) by simp
  have la': "last (Num a' # cumul (Num a') ys) = Num L" using la unfolding a' .
  from Cons.IH [OF ys la'] obtain rs where
    rs: "Num a' # cumul (Num a') ys = map Num rs" "sorted rs" "hd rs = a'"
      "\<forall>r\<in>set rs. a' \<le> r" "\<forall>r\<in>set (tl rs). \<bar>r\<bar> < overflowAt"
    by (elim exE conjE) (rule that; assumption)
  from rs(1) have ne: "rs \<noteq> []" by auto
  then have tl: "set rs = insert (hd rs) (set (tl rs))" by (cases rs) auto
  have "Num a # cumul (Num a) (y # ys) = map Num (a # rs)" using a' rs(1) by simp
  moreover have "sorted (a # rs)" using rs(2,4) r(2,3) by auto
  moreover have "\<forall>x\<in>set (a # rs). a \<le> x" using rs(4) r(2,3) by auto
  moreover have "\<forall>x\<in>set (tl (a # rs)). \<bar>x\<bar> < overflowAt"
    using rs(3,5) r(4) tl by auto
  ultimately show ?case by (intro exI [of _ "a # rs"]) simp
qed


section \<open>The table of cumulative arc lengths\<close>


text \<open>
  The loop of \<open>getCurveLengths\<close> appends the running sums of the chords between
  consecutive samples.
\<close>

lemma getCurveLengths_loop_eq:
  "getCurveLengths_loop c d p lastp sm cache =
     cache @ (if p \<le> d
              then cumul sm (distanceTo (sample c d p) lastp # map (segment c d) [p + 1..d])
              else [])"
proof (induction c d p lastp sm cache rule: getCurveLengths_loop.induct)
  case (1 c d p lastp sm cache)
  show ?case
  proof (cases "p \<le> d")
    case False
    then show ?thesis by (subst getCurveLengths_loop.simps) simp
  next
    case True
    define cur where "cur = sample c d p"
    define sm' where "sm' = num_add sm (distanceTo cur lastp)"
    have step: "getCurveLengths_loop c d p lastp sm cache =
        getCurveLengths_loop c d (p + 1) cur sm' (cache @ [sm'])"
      using True
      by (subst getCurveLengths_loop.simps) (simp add: Let_def cur_def sm'_def sample_def)
    have IH: "getCurveLengths_loop c d (p + 1) cur sm' (cache @ [sm']) =
        (cache @ [sm']) @
        (if p + 1 \<le> d
         then cumul sm' (distanceTo (sample c d (p + 1)) cur # map (segment c d) [p + 1 + 1..d])
         else [])"
      using 1 [OF True refl refl] by (simp add: cur_def sm'_def sample_def)
    have seg: "distanceTo (sample c d (p + 1)) cur = segment c d (p + 1)"
      by (simp add: segment_def cur_def)
    show ?thesis
    proof (cases "p + 1 \<le> d")
      case True
      then have "[p + 1..d] = (p + 1) # [p + 1 + 1..d]" by (simp add: upto_rec1)
      then show ?thesis
        unfolding step IH using True \<open>p \<le> d\<close>
        by (simp add: seg [unfolded cur_def] sm'_def cur_def)
    next
      case False
      then have "[p + 1..d] = []" by simp
      then show ?thesis
        unfolding step IH using False \<open>p \<le> d\<close> by (simp add: sm'_def cur_def)
    qed
  qed
qed

lemma computeLengths_eq:
  "computeLengths c d = Num 0 # cumul (Num 0) (map (segment c d) [1..d])"
proof (cases "1 \<le> d")
  case True
  then have u: "[1..d] = 1 # [1 + 1..d]" by (simp add: upto_rec1)
  have "distanceTo (sample c d 1) (getPointOnCurve c (Num 0)) = segment c d 1"
    using True by (simp add: segment_def sample_0)
  then show ?thesis
    unfolding computeLengths_def getCurveLengths_loop_eq u using True by simp
next
  case False
  then show ?thesis unfolding computeLengths_def getCurveLengths_loop_eq by simp
qed

lemma getCurveLengths_valid:
  assumes "cacheValid c"
  shows "fst (getCurveLengths c d) = computeLengths c d"
  using assms
  by (auto simp: getCurveLengths_def cacheValid_def Let_def split: option.splits)


lemma segment_chordLike: "\<forall>y\<in>set (map (segment c d) ks). chordLike y"
  by (simp add: segment_def chordLike_distanceTo)












text \<open>The calls keep the cache of a curve valid.\<close>

lemma segment_cache_update: "segment (c\<lparr>cacheArcLengths := x\<rparr>) d = segment c d"
  by (rule ext) (simp add: segment_def sample_def getPointOnCurve_def)

lemma computeLengths_cache_update:
  "computeLengths (c\<lparr>cacheArcLengths := x\<rparr>) d = computeLengths c d"
  by (simp add: computeLengths_eq segment_cache_update)

lemma computeLengths_nonpos: "d \<le> 0 \<Longrightarrow> computeLengths c d = [Num 0]"
  by (simp add: computeLengths_eq)

lemma computeLengths_idem:
  "computeLengths c (int (length (computeLengths c d)) - 1) = computeLengths c d"
proof (cases "0 \<le> d")
  case True
  then show ?thesis by (simp add: length_computeLengths)
next
  case False
  then show ?thesis by (simp add: computeLengths_nonpos)
qed

lemma cacheValid_getCurveLengths:
  assumes "cacheValid c"
  shows "cacheValid (snd (getCurveLengths c d))"
proof (cases "cacheHit c d")
  case True
  then have "snd (getCurveLengths c d) = c" by (simp add: getCurveLengths_cases)
  with assms show ?thesis by simp
next
  case False
  then have "snd (getCurveLengths c d) = c\<lparr>cacheArcLengths := Some (computeLengths c d)\<rparr>"
    by (simp add: getCurveLengths_cases)
  then show ?thesis
    by (simp add: cacheValid_def computeLengths_cache_update computeLengths_idem)
qed

lemma getCurveLengths_again:
  assumes "cacheValid c"
  shows "fst (getCurveLengths (snd (getCurveLengths c d)) d) = fst (getCurveLengths c d)"
proof -
  let ?c' = "snd (getCurveLengths c d)"
  have v: "cacheValid ?c'" using assms by (rule cacheValid_getCurveLengths)
  have "computeLengths ?c' d = computeLengths c d"
    by (simp add: getCurveLengths_cases computeLengths_cache_update)
  then show ?thesis
    using getCurveLengths_valid [OF v] getCurveLengths_valid [OF assms] by simp
qed

section \<open>The cumulative lengths of a path\<close>

lemma index_last:
  "xs \<noteq> [] \<Longrightarrow> index xs (int (length xs) - 1) = Some (last xs)"
  by (simp add: index_def last_conv_nth nat_diff_distrib')

lemma getCurveLength_eq:
  "getCurveLength c =
     (index (fst (getCurveLengths c curveResolution))
        (int (length (fst (getCurveLengths c curveResolution))) - 1),
      snd (getCurveLengths c curveResolution))"
  by (simp add: getCurveLength_def split_beta)

lemma getCurveLengths_nonempty: "0 \<le> d \<Longrightarrow> fst (getCurveLengths c d) \<noteq> []"
  using getCurveLengths_hit [of d c "fst (getCurveLengths c d)" "snd (getCurveLengths c d)"]
  by auto

text \<open>The length of a curve is the last entry of its table at the default resolution.\<close>

lemma getCurveLength_last:
  "fst (getCurveLength c) = Some (last (fst (getCurveLengths c curveResolution)))"
  using getCurveLengths_nonempty [of curveResolution c]
  by (simp add: getCurveLength_eq index_last curveResolution_def)










text \<open>The calls keep the caches of a path and of its curves valid.\<close>

lemma snd_getCurvePathLengths_loop:
  "snd (getCurvePathLengths_loop cs sms ls) = map (\<lambda>c. snd (getCurveLength c)) cs"
  by (induction cs arbitrary: sms ls) (simp_all add: split_beta Let_def)

lemma getCurveLength_again:
  assumes "cacheValid c"
  shows "fst (getCurveLength (snd (getCurveLength c))) = fst (getCurveLength c)"
  using getCurveLengths_again [OF assms, of curveResolution] by (simp add: getCurveLength_eq)

lemma getCurvePathLengths_loop_again:
  assumes "\<forall>c\<in>set cs. cacheValid c"
  shows "fst (getCurvePathLengths_loop (map (\<lambda>c. snd (getCurveLength c)) cs) sms ls) =
         fst (getCurvePathLengths_loop cs sms ls)"
  using assms
proof (induction cs arbitrary: sms ls)
  case Nil
  show ?case by simp
next
  case (Cons c cs)
  then show ?case by (simp add: split_beta Let_def getCurveLength_again)
qed

lemma pathCacheValid_getCurvePathLengths:
  assumes "\<forall>c\<in>set (curves p). cacheValid c" and "pathCacheValid p"
  shows "pathCacheValid (snd (getCurvePathLengths p))"
proof (cases "\<exists>ls. cacheLengths p = Some ls \<and> length ls = length (curves p)")
  case True
  then have "snd (getCurvePathLengths p) = p" by (auto simp: getCurvePathLengths_def)
  with assms show ?thesis by simp
next
  case False
  then have "snd (getCurvePathLengths p) =
      p\<lparr>curves := snd (getCurvePathLengths_loop (curves p) (Num 0) []),
        cacheLengths := Some (fst (getCurvePathLengths_loop (curves p) (Num 0) []))\<rparr>"
    by (auto simp: getCurvePathLengths_def split_beta Let_def split: option.splits)
  then show ?thesis
    using assms(1)
    by (simp add: pathCacheValid_def snd_getCurvePathLengths_loop
        getCurvePathLengths_loop_again)
qed





section \<open>The binary search\<close>

lemma below_Num: "below (Num t) (Num a) \<longleftrightarrow> a < t"
  using overflowAt_gt_1024 by (auto simp: below_def num_sub_def fin_def)

lemma above_Num: "above (Num t) (Num a) \<longleftrightarrow> t < a"
  using overflowAt_gt_1024 by (auto simp: above_def num_sub_def fin_def)

lemma not_below_and_above: "below t a \<Longrightarrow> \<not> above t a"
  unfolding below_def above_def by (cases "num_sub a t") simp_all

lemma strict_eq_iff: "strict_eq a b \<longleftrightarrow> a = b \<and> a \<noteq> NaN"
  by (cases a; cases b) simp_all

text \<open>An entry that is neither below nor above a target, both not NaN, is the target.\<close>

lemma neither_below_nor_above:
  assumes "a \<noteq> NaN" and "t \<noteq> NaN" and "\<not> below t a" and "\<not> above t a"
  shows "strict_eq a t"
  using assms overflowAt_gt_1024
  by (cases a; cases t) (auto simp: below_def above_def num_sub_def fin_def split: if_splits)

lemma toNumber_index:
  "0 \<le> i \<Longrightarrow> i < int (length ls) \<Longrightarrow> toNumber (index ls i) = ls ! nat i"
  by (simp add: index_def)

text \<open>
  On every table and for every target, the search ends either on an entry that is
  neither below nor above the target, or between an entry below the target and an entry
  above it (where these exist). The table need not be sorted for that.
\<close>

lemma search_post_gen:
  "0 \<le> low \<Longrightarrow> high < int (length ls) \<Longrightarrow> low \<le> high + 1 \<Longrightarrow>
     (0 < low \<longrightarrow> below t (ls ! nat (low - 1))) \<Longrightarrow>
     (high + 1 < int (length ls) \<longrightarrow> above t (ls ! nat (high + 1))) \<Longrightarrow>
     - 1 \<le> search ls t low high \<and> search ls t low high < int (length ls) \<and>
     ((0 \<le> search ls t low high \<and> \<not> below t (ls ! nat (search ls t low high)) \<and>
       \<not> above t (ls ! nat (search ls t low high))) \<or>
      ((0 \<le> search ls t low high \<longrightarrow> below t (ls ! nat (search ls t low high))) \<and>
       (search ls t low high + 1 < int (length ls) \<longrightarrow>
          above t (ls ! nat (search ls t low high + 1)))))"
proof (induction "nat (high + 1 - low)" arbitrary: low high rule: less_induct)
  case less
  show ?case
  proof (cases "low \<le> high")
    case False
    then have e: "search ls t low high = high"
      by (subst search.simps) simp
    from False less.prems have hl: "high = low - 1" by simp
    show ?thesis unfolding e using less.prems hl by auto
  next
    case True
    define i where "i = low + (high - low) div 2"
    have i: "low \<le> i" "i \<le> high" using True by (auto simp: i_def)
    then have ir: "0 \<le> i" "i < int (length ls)" using less.prems by auto
    have cmp: "num_lt (num_sub (toNumber (index ls i)) t) (Num 0) = below t (ls ! nat i)"
      "num_lt (Num 0) (num_sub (toNumber (index ls i)) t) = above t (ls ! nat i)"
      using ir by (simp_all add: toNumber_index below_def above_def)
    consider (lt) "below t (ls ! nat i)"
      | (gt) "\<not> below t (ls ! nat i)" "above t (ls ! nat i)"
      | (eq) "\<not> below t (ls ! nat i)" "\<not> above t (ls ! nat i)"
      by blast
    then show ?thesis
    proof cases
      case lt
      have e: "search ls t low high = search ls t (i + 1) high"
        using True lt
        by (subst search.simps) (simp add: Let_def i_def [symmetric] cmp)
      have "nat (high + 1 - (i + 1)) < nat (high + 1 - low)" using i by simp
      from less.hyps [OF this] less.prems i lt ir
      show ?thesis unfolding e by simp
    next
      case gt
      have e: "search ls t low high = search ls t low (i - 1)"
        using True gt
        by (subst search.simps) (simp add: Let_def i_def [symmetric] cmp)
      have "nat (i - 1 + 1 - low) < nat (high + 1 - low)" using i by simp
      from less.hyps [OF this] less.prems i gt ir
      show ?thesis unfolding e by simp
    next
      case eq
      have e: "search ls t low high = i"
        using True eq
        by (subst search.simps) (simp add: Let_def i_def [symmetric] cmp)
      show ?thesis unfolding e using eq ir by simp
    qed
  qed
qed

lemma index_map_Num:
  "0 \<le> i \<Longrightarrow> i < int (length rs) \<Longrightarrow> index (map Num rs) i = Some (Num (rs ! nat i))"
  by (simp add: index_def)

text \<open>
  On a table of numbers and a target that is a number, the search ends either on an
  entry equal to the target or between an entry less than the target and an entry
  greater than it (where these exist).
\<close>

lemma search_post:
  fixes rs :: "real list"
  defines "s \<equiv> \<lambda>t. search (map Num rs) (Num t) 0 (int (length rs) - 1)"
  shows "- 1 \<le> s t \<and> s t < int (length rs) \<and>
     ((0 \<le> s t \<and> rs ! nat (s t) = t) \<or>
      ((0 \<le> s t \<longrightarrow> rs ! nat (s t) < t) \<and>
       (s t + 1 < int (length rs) \<longrightarrow> t < rs ! nat (s t + 1))))"
proof -
  from search_post_gen [of 0 "int (length rs) - 1" "map Num rs" "Num t"]
  have p: "- 1 \<le> s t" "s t < int (length rs)"
    "(0 \<le> s t \<and> \<not> below (Num t) (map Num rs ! nat (s t)) \<and>
        \<not> above (Num t) (map Num rs ! nat (s t))) \<or>
     ((0 \<le> s t \<longrightarrow> below (Num t) (map Num rs ! nat (s t))) \<and>
      (s t + 1 < int (length rs) \<longrightarrow> above (Num t) (map Num rs ! nat (s t + 1))))"
    unfolding s_def by simp_all
  have n0: "map Num rs ! nat (s t) = Num (rs ! nat (s t))" if "0 \<le> s t"
    using that p(2) by simp
  have n1: "map Num rs ! nat (s t + 1) = Num (rs ! nat (s t + 1))"
    if "s t + 1 < int (length rs)"
    using that p(1) by simp
  from p(3) have "(0 \<le> s t \<and> rs ! nat (s t) = t) \<or>
      ((0 \<le> s t \<longrightarrow> rs ! nat (s t) < t) \<and>
       (s t + 1 < int (length rs) \<longrightarrow> t < rs ! nat (s t + 1)))"
  proof
    assume a: "0 \<le> s t \<and> \<not> below (Num t) (map Num rs ! nat (s t)) \<and>
        \<not> above (Num t) (map Num rs ! nat (s t))"
    then have "\<not> rs ! nat (s t) < t" "\<not> t < rs ! nat (s t)"
      using n0 by (simp_all add: below_Num above_Num)
    with a show ?thesis by simp
  next
    assume a: "(0 \<le> s t \<longrightarrow> below (Num t) (map Num rs ! nat (s t))) \<and>
      (s t + 1 < int (length rs) \<longrightarrow> above (Num t) (map Num rs ! nat (s t + 1)))"
    have "rs ! nat (s t) < t" if "0 \<le> s t"
      using a that n0 [OF that] by (simp add: below_Num)
    moreover have "t < rs ! nat (s t + 1)" if "s t + 1 < int (length rs)"
      using a that n1 [OF that] by (simp add: above_Num)
    ultimately show ?thesis by blast
  qed
  with p(1,2) show ?thesis by blast
qed

section \<open>The parameter of an arc length\<close>

lemma getCurveUtoTMapping_unfold:
  "fst (getCurveUtoTMapping c u distance) =
     (let ls = fst (getCurveLengths c curveResolution);
          il = int (length ls);
          target = targetArcLength ls u distance;
          i = search ls target 0 (il - 1)
      in if strict_eq_opt (index ls i) target
         then num_div (Num (of_int i)) (Num (of_int (il - 1)))
         else num_div
                (num_add (Num (of_int i))
                   (num_div (num_sub target (toNumber (index ls i)))
                      (num_sub (toNumber (index ls (i + 1))) (toNumber (index ls i)))))
                (Num (of_int (il - 1))))"
  by (simp add: getCurveUtoTMapping_def split_beta Let_def)

lemma getCurveUtoTMapping_target:
  assumes "targetArcLength (fst (getCurveLengths c curveResolution)) u1 d1 =
           targetArcLength (fst (getCurveLengths c curveResolution)) u2 d2"
  shows "fst (getCurveUtoTMapping c u1 d1) = fst (getCurveUtoTMapping c u2 d2)"
  using assms by (simp add: getCurveUtoTMapping_unfold Let_def)

lemma snd_getCurveUtoTMapping:
  "snd (getCurveUtoTMapping c u distance) = snd (getCurveLengths c curveResolution)"
  by (simp add: getCurveUtoTMapping_def split_beta Let_def)

lemma getCurveUtoTMapping_again:
  assumes "cacheValid c"
  shows "fst (getCurveUtoTMapping (snd (getCurveUtoTMapping c u' distance')) u distance) =
         fst (getCurveUtoTMapping c u distance)"
  unfolding snd_getCurveUtoTMapping
  by (simp add: getCurveUtoTMapping_unfold getCurveLengths_again [OF assms])

text \<open>The table at the default resolution has 129 entries, whatever the cache holds.\<close>

lemma length_table_default: "length (fst (getCurveLengths c curveResolution)) = 129"
  using getCurveLengths_hit [of curveResolution c "fst (getCurveLengths c curveResolution)"
      "snd (getCurveLengths c curveResolution)"]
  by (simp add: curveResolution_def)

lemma num_div_index:
  assumes "0 \<le> i" and "i \<le> 128"
  shows "num_div (Num (of_int i)) (Num 128) = Num (of_int i / 128)"
  using num_div_int [of i 128] assms by simp

text \<open>
  The early return. When the search ends on an entry that is the target, the result is
  the index over the table length minus 1.
\<close>

lemma getCurveUtoTMapping_early:
  assumes "ls = fst (getCurveLengths c curveResolution)"
    and "t = targetArcLength ls u distance"
    and "i = search ls t 0 (int (length ls) - 1)"
    and "0 \<le> i" and "i < int (length ls)" and "strict_eq (ls ! nat i) t"
  shows "fst (getCurveUtoTMapping c u distance) =
           Num (real_of_int i / real_of_int (int (length ls) - 1))"
proof -
  have l: "length ls = 129" unfolding assms(1) by (rule length_table_default)
  have "index ls i = Some (ls ! nat i)" using assms(4,5) by (simp add: index_def)
  then have "strict_eq_opt (index ls i) t" using assms(6) by simp
  then have "fst (getCurveUtoTMapping c u distance) =
      num_div (Num (of_int i)) (Num (of_int (int (length ls) - 1)))"
    using assms(1-3) by (simp add: getCurveUtoTMapping_unfold Let_def)
  also have "\<dots> = Num (real_of_int i / real_of_int (int (length ls) - 1))"
    using num_div_index [of i] assms(4,5) l by simp
  finally show ?thesis .
qed

text \<open>
  The interpolation between two entries that enclose the target, on a table of 129
  entries inside the range.
\<close>

lemma getCurveUtoTMapping_exact:
  assumes "fst (getCurveLengths c curveResolution) = map Num rs"
    and "targetArcLength (map Num rs) u distance = Num t"
    and "search (map Num rs) (Num t) 0 (int (length rs) - 1) = int h"
    and "h < length rs" and "rs ! h = t"
  shows "fst (getCurveUtoTMapping c u distance) = Num (real h / real (length rs - 1))"
proof -
  have l: "length rs = 129"
    using length_table_default [of c] unfolding assms(1) by simp
  from getCurveUtoTMapping_early [OF assms(1) [symmetric] assms(2) [symmetric], of "int h"]
    assms(3,4,5) l
  show ?thesis by simp
qed

lemma getCurveUtoTMapping_between:
  assumes "fst (getCurveLengths c curveResolution) = map Num rs"
    and "targetArcLength (map Num rs) u distance = Num t"
    and "search (map Num rs) (Num t) 0 (int (length rs) - 1) = int h"
    and "Suc h < length rs" and "rs ! h < t" and "t < rs ! Suc h"
    and "0 \<le> rs ! h" and "rs ! Suc h < overflowAt"
  shows "fst (getCurveUtoTMapping c u distance) =
     Num ((real h + (t - rs ! h) / (rs ! Suc h - rs ! h)) / real (length rs - 1))"
proof -
  have l: "length rs = 129"
    using length_table_default [of c] unfolding assms(1) by simp
  have h: "real h \<le> 127" using assms(4) l by simp
  define f where "f = (t - rs ! h) / (rs ! Suc h - rs ! h)"
  have f: "0 < f" "f < 1"
    using assms(5,6) by (simp_all add: f_def)
  have i0: "index (map Num rs) (int h) = Some (Num (rs ! h))"
    using assms(4) by (simp add: index_map_Num)
  have i1: "index (map Num rs) (int h + 1) = Some (Num (rs ! Suc h))"
    using assms(4) by (simp add: index_map_Num nat_add_distrib)
  have ne: "rs ! Suc h - rs ! h \<noteq> 0" "rs ! h \<noteq> t" using assms(5,6) by auto
  have s1: "num_sub (Num t) (Num (rs ! h)) = Num (t - rs ! h)"
    using assms(5-8) by (simp add: num_sub_def fin_Num)
  have s2: "num_sub (Num (rs ! Suc h)) (Num (rs ! h)) = Num (rs ! Suc h - rs ! h)"
    using assms(5-8) by (simp add: num_sub_def fin_Num)
  have d1: "num_div (Num (t - rs ! h)) (Num (rs ! Suc h - rs ! h)) = Num f"
    using ne(1) f by (simp add: f_def [symmetric] fin_1024)
  have a1: "num_add (Num (real h)) (Num f) = Num (real h + f)"
    using h f by (simp add: fin_1024)
  have d2: "num_div (Num (real h + f)) (Num 128) = Num ((real h + f) / 128)"
    using h f by (simp add: fin_1024)
  have e: "fst (getCurveUtoTMapping c u distance) =
      num_div
        (num_add (Num (real h))
           (num_div (num_sub (Num t) (Num (rs ! h)))
              (num_sub (Num (rs ! Suc h)) (Num (rs ! h)))))
        (Num 128)"
    using assms(1-3) ne(2) l
    by (simp add: getCurveUtoTMapping_unfold Let_def i0 i1
        del: num_div.simps num_add.simps)
  show ?thesis unfolding e s1 s2 d1 a1 d2 using l by (simp add: f_def)
qed

lemma getCurveUtoTMapping_bracket:
  assumes "fst (getCurveLengths c curveResolution) = map Num rs"
    and "targetArcLength (map Num rs) u distance = Num t"
    and "rs ! 0 \<le> t" and "t \<le> last rs"
    and "\<forall>r\<in>set rs. 0 \<le> r \<and> r < overflowAt"
  shows "\<exists>h r. search (map Num rs) (Num t) 0 (int (length rs) - 1) = int h \<and>
           fst (getCurveUtoTMapping c u distance) = Num r \<and> bracket rs t h r"
proof -
  have l: "length rs = 129"
    using length_table_default [of c] unfolding assms(1) by simp
  define s where "s = search (map Num rs) (Num t) 0 (int (length rs) - 1)"
  have la: "last rs = rs ! (length rs - 1)"
    using l by (intro last_conv_nth) auto
  from search_post [of rs t]
  have post: "- 1 \<le> s" "s < int (length rs)"
    "(0 \<le> s \<and> rs ! nat s = t) \<or>
     ((0 \<le> s \<longrightarrow> rs ! nat s < t) \<and> (s + 1 < int (length rs) \<longrightarrow> t < rs ! nat (s + 1)))"
    unfolding s_def by simp_all
  show ?thesis
  proof (cases "0 \<le> s \<and> rs ! nat s = t")
    case True
    define h where "h = nat s"
    from True have sh: "search (map Num rs) (Num t) 0 (int (length rs) - 1) = int h"
      and hl: "h < length rs" and ex: "rs ! h = t"
      using post(2) by (auto simp: h_def s_def)
    from getCurveUtoTMapping_exact [OF assms(1,2) sh hl ex]
    show ?thesis using sh hl ex by (auto simp: bracket_def)
  next
    case False
    with post(3) have b: "0 \<le> s \<longrightarrow> rs ! nat s < t"
        "s + 1 < int (length rs) \<longrightarrow> t < rs ! nat (s + 1)"
      by auto
    have s0: "0 \<le> s"
    proof (rule ccontr)
      assume "\<not> 0 \<le> s"
      with post(1) have "s = - 1" by simp
      with b(2) assms(3) l show False by simp
    qed
    have s1: "s + 1 < int (length rs)"
    proof (rule ccontr)
      assume "\<not> s + 1 < int (length rs)"
      with post(2) have "s = int (length rs) - 1" by simp
      then have "nat s = length rs - 1" by simp
      with b(1) s0 assms(4) la show False by simp
    qed
    define h where "h = nat s"
    have sh: "search (map Num rs) (Num t) 0 (int (length rs) - 1) = int h"
      using s0 by (simp add: h_def s_def)
    have hl: "Suc h < length rs" using s0 s1 by (simp add: h_def)
    have lo: "rs ! h < t" using b(1) s0 by (simp add: h_def)
    have hi: "t < rs ! Suc h" using b(2) s1 s0 by (simp add: h_def nat_add_distrib)
    have "rs ! h \<in> set rs" "rs ! Suc h \<in> set rs" using hl by simp_all
    with assms(5) have rg: "0 \<le> rs ! h" "rs ! Suc h < overflowAt" by blast+
    from getCurveUtoTMapping_between [OF assms(1,2) sh hl lo hi rg]
    show ?thesis using sh hl lo hi by (auto simp: bracket_def)
  qed
qed

lemma between_fraction:
  assumes "a < t" and "t < (b::real)"
  shows "0 < (t - a) / (b - a)" and "(t - a) / (b - a) < 1"
  using assms by simp_all

lemma bracket_lower:
  assumes "bracket rs t h r" and "2 \<le> length rs"
  shows "h < length rs \<and> rs ! h \<le> t \<and> real h / real (length rs - 1) \<le> r"
proof -
  have N: "0 < real (length rs - 1)" using assms(2) by simp
  from assms(1) show ?thesis
    unfolding bracket_def
  proof (elim disjE conjE)
    assume "h < length rs" "rs ! h = t" "r = real h / real (length rs - 1)"
    then show ?thesis by simp
  next
    assume a: "Suc h < length rs" "rs ! h < t" "t < rs ! Suc h"
      "r = (real h + (t - rs ! h) / (rs ! Suc h - rs ! h)) / real (length rs - 1)"
    have "real h \<le> real h + (t - rs ! h) / (rs ! Suc h - rs ! h)"
      using between_fraction(1) [OF a(2,3)] by simp
    then have "real h / real (length rs - 1) \<le> r"
      unfolding a(4) using N by (intro divide_right_mono) simp_all
    with a show ?thesis by simp
  qed
qed

lemma bracket_upper:
  assumes "bracket rs t h r" and "2 \<le> length rs"
  shows "r \<le> real (Suc h) / real (length rs - 1) \<and>
         (rs ! h = t \<or> (Suc h < length rs \<and> t < rs ! Suc h))"
proof -
  have N: "0 < real (length rs - 1)" using assms(2) by simp
  from assms(1) show ?thesis
    unfolding bracket_def
  proof (elim disjE conjE)
    assume a: "h < length rs" "rs ! h = t" "r = real h / real (length rs - 1)"
    have "r \<le> real (Suc h) / real (length rs - 1)"
      unfolding a(3) using N by (intro divide_right_mono) simp_all
    with a show ?thesis by simp
  next
    assume a: "Suc h < length rs" "rs ! h < t" "t < rs ! Suc h"
      "r = (real h + (t - rs ! h) / (rs ! Suc h - rs ! h)) / real (length rs - 1)"
    have "real h + (t - rs ! h) / (rs ! Suc h - rs ! h) \<le> real (Suc h)"
      using between_fraction(2) [OF a(2,3)] by simp
    then have "r \<le> real (Suc h) / real (length rs - 1)"
      unfolding a(4) using N by (intro divide_right_mono) simp_all
    with a show ?thesis by simp
  qed
qed


lemma sorted_nth_less:
  assumes "sorted rs" and "i < length rs" and "rs ! i < (rs ! j :: real)"
  shows "i < j"
proof (rule ccontr)
  assume "\<not> i < j"
  then have "j \<le> i" by simp
  from sorted_nth_mono [OF assms(1) this assms(2)] assms(3) show False by simp
qed

lemma bracket_mono_same:
  assumes "2 \<le> length rs" and "bracket rs t1 h r1" and "bracket rs t2 h r2" and "t1 < t2"
  shows "r1 \<le> r2"
proof -
  have N: "0 < real (length rs - 1)" using assms(1) by simp
  from bracket_lower [OF assms(3,1)]
  have l2: "rs ! h \<le> t2" "real h / real (length rs - 1) \<le> r2" by blast+
  from assms(2) show ?thesis
    unfolding bracket_def
  proof (elim disjE conjE)
    assume "r1 = real h / real (length rs - 1)"
    with l2(2) show ?thesis by simp
  next
    assume a: "Suc h < length rs" "rs ! h < t1" "t1 < rs ! Suc h"
      "r1 = (real h + (t1 - rs ! h) / (rs ! Suc h - rs ! h)) / real (length rs - 1)"
    from a(2) assms(4) have "rs ! h \<noteq> t2" by simp
    with assms(3) have b: "t2 < rs ! Suc h"
      "r2 = (real h + (t2 - rs ! h) / (rs ! Suc h - rs ! h)) / real (length rs - 1)"
      unfolding bracket_def by auto
    have "(t1 - rs ! h) / (rs ! Suc h - rs ! h) \<le> (t2 - rs ! h) / (rs ! Suc h - rs ! h)"
      using assms(4) a(2,3) by (intro divide_right_mono) simp_all
    then have "real h + (t1 - rs ! h) / (rs ! Suc h - rs ! h) \<le>
        real h + (t2 - rs ! h) / (rs ! Suc h - rs ! h)"
      by simp
    then show ?thesis unfolding a(4) b(2) using N by (intro divide_right_mono) simp_all
  qed
qed

text \<open>On a sorted table a larger target gets a parameter that is not smaller.\<close>

lemma bracket_mono:
  assumes "sorted rs" and "2 \<le> length rs"
    and "bracket rs t1 h1 r1" and "bracket rs t2 h2 r2" and "t1 < t2"
  shows "r1 \<le> r2"
proof (cases "h1 = h2")
  case True
  with assms(3,4) bracket_mono_same [OF assms(2) _ _ assms(5)] show ?thesis by simp
next
  case False
  have N: "0 < real (length rs - 1)" using assms(2) by simp
  from bracket_lower [OF assms(3,2)]
  have l1: "h1 < length rs" "rs ! h1 \<le> t1" by blast+
  from bracket_lower [OF assms(4,2)]
  have l2: "real h2 / real (length rs - 1) \<le> r2" by blast
  from bracket_upper [OF assms(3,2)]
  have u1: "r1 \<le> real (Suc h1) / real (length rs - 1)" by blast
  from bracket_upper [OF assms(4,2)]
  have "rs ! h2 = t2 \<or> (Suc h2 < length rs \<and> t2 < rs ! Suc h2)" by blast
  then have "h1 \<le> h2"
  proof
    assume "rs ! h2 = t2"
    with l1(2) assms(5) have "rs ! h1 < rs ! h2" by simp
    from sorted_nth_less [OF assms(1) l1(1) this] show ?thesis by simp
  next
    assume "Suc h2 < length rs \<and> t2 < rs ! Suc h2"
    with l1(2) assms(5) have "rs ! h1 < rs ! Suc h2" by simp
    from sorted_nth_less [OF assms(1) l1(1) this] show ?thesis by simp
  qed
  with False have "Suc h1 \<le> h2" by simp
  then have "real (Suc h1) / real (length rs - 1) \<le> real h2 / real (length rs - 1)"
    using N by (intro divide_right_mono) simp_all
  with u1 l2 show ?thesis by (blast intro: order_trans)
qed


section \<open>The tables of the three concrete curves\<close>

text \<open>The samples of a straight line from the origin along the first axis.\<close>

lemma sample_line:
  assumes "points c = ((Num 0, Num 0, Num 0), (Num m, Num 0, Num 0), (Num (2 * m), Num 0, Num 0))"
    and "\<bar>2 * m\<bar> < overflowAt" and "0 \<le> k" and "k \<le> d" and "1 \<le> d"
  shows "sample c d k = (Num (2 * m * (of_int k / of_int d)), Num 0, Num 0)"
proof -
  define t where "t = real_of_int k / real_of_int d"
  have t: "0 \<le> t" "t \<le> 1" using assms(3-5) by (simp_all add: t_def)
  have z: "\<bar>0::real\<bar> < overflowAt" using overflowAt_gt_1024 by simp
  have m: "\<bar>m\<bar> < overflowAt" using assms(2) by simp
  have "(1 - t) * (1 - t) * 0 + 2 * (1 - t) * t * m + t * t * (2 * m) = 2 * m * t"
    by (simp add: algebra_simps)
  with QuadraticBezier_Num [OF t z m assms(2)]
  have x: "QuadraticBezier (Num t) (Num 0) (Num m) (Num (2 * m)) = Num (2 * m * t)"
    by simp
  from QuadraticBezier_Num [OF t z z z]
  have y: "QuadraticBezier (Num t) (Num 0) (Num 0) (Num 0) = Num 0"
    by simp
  show ?thesis
    unfolding sample_def num_div_int [OF assms(3-5)] getPointOnCurve_def assms(1)
    by (simp only: prod.case x y t_def [symmetric])
qed

lemma sample_zeroCurve:
  assumes "0 \<le> k" and "k \<le> d" and "1 \<le> d"
  shows "sample zeroCurve d k = (Num 0, Num 0, Num 0)"
  using sample_line [of zeroCurve 0 k d] assms overflowAt_gt_1024
  by (simp add: zeroCurve_def)

lemma sample_lineCurve:
  assumes "0 \<le> k" and "k \<le> 128"
  shows "sample lineCurve 128 k = (Num (of_int k), Num 0, Num 0)"
  using sample_line [of lineCurve 64 k 128] assms overflowAt_gt_1024
  by (simp add: lineCurve_def)

lemma big_in_range: "(2::real) ^ 601 < overflowAt" "(2::real) ^ 594 < overflowAt"
proof -
  have "(2::real) ^ 601 \<le> 2 ^ 1023" "(2::real) ^ 594 \<le> 2 ^ 1023"
    by (rule power_increasing; simp)+
  with overflowAt_large show "(2::real) ^ 601 < overflowAt" "(2::real) ^ 594 < overflowAt"
    by linarith+
qed

lemma big_square: "overflowAt \<le> (2::real) ^ 594 * 2 ^ 594"
proof -
  have "(2::real) ^ 1024 \<le> 2 ^ (594 + 594)" by (rule power_increasing) simp_all
  then have "(2::real) ^ 1024 \<le> 2 ^ 594 * 2 ^ 594" by (simp only: power_add)
  moreover have "overflowAt \<le> 2 ^ 1024" by (simp add: overflowAt_def)
  ultimately show ?thesis by linarith
qed

lemma sample_bigCurve:
  assumes "0 \<le> k" and "k \<le> 128"
  shows "sample bigCurve 128 k = (Num (2 ^ 594 * of_int k), Num 0, Num 0)"
proof -
  have e: "(2::real) * 2 ^ 600 = 2 ^ 601" by simp
  have "(2::real) ^ 601 = 2 ^ 594 * 2 ^ 7" by (simp only: power_add [symmetric]) simp
  then have f: "(2::real) ^ 601 * (of_int k / 128) = 2 ^ 594 * of_int k" by simp
  have p: "points bigCurve =
      ((Num 0, Num 0, Num 0), (Num (2 ^ 600), Num 0, Num 0), (Num (2 * 2 ^ 600), Num 0, Num 0))"
    unfolding e by (simp add: bigCurve_def)
  have r: "\<bar>2 * (2::real) ^ 600\<bar> < overflowAt" unfolding e using big_in_range(1) by simp
  have "sample bigCurve 128 k = (Num (2 * 2 ^ 600 * (of_int k / of_int 128)), Num 0, Num 0)"
    using assms by (intro sample_line [OF p r]) simp_all
  then show ?thesis unfolding e using f by simp
qed

text \<open>The chords of the three curves: 0, 1, and the positive infinity.\<close>

lemma segment_zeroCurve:
  assumes "1 \<le> k" and "k \<le> d"
  shows "segment zeroCurve d k = Num 0"
proof -
  have "sample zeroCurve d k = (Num 0, Num 0, Num 0)"
    "sample zeroCurve d (k - 1) = (Num 0, Num 0, Num 0)"
    using assms by (simp_all add: sample_zeroCurve)
  then show ?thesis
    by (simp add: segment_def distanceTo_def Let_def num_sub_def fin_1024)
qed

lemma segment_lineCurve:
  assumes "1 \<le> k" and "k \<le> 128"
  shows "segment lineCurve 128 k = Num 1"
proof -
  have "sample lineCurve 128 k = (Num (of_int k), Num 0, Num 0)"
    "sample lineCurve 128 (k - 1) = (Num (of_int k - 1), Num 0, Num 0)"
    using assms by (simp_all add: sample_lineCurve)
  then show ?thesis
    by (simp add: segment_def distanceTo_def Let_def num_sub_def fin_1024)
qed

lemma segment_bigCurve:
  assumes "1 \<le> k" and "k \<le> 128"
  shows "segment bigCurve 128 k = PosInf"
proof -
  define B :: real where "B = 2 ^ 594"
  have B: "0 < B" "B < overflowAt" "overflowAt \<le> B * B"
    using big_in_range(2) big_square by (simp_all add: B_def)
  have s: "sample bigCurve 128 k = (Num (B * of_int k), Num 0, Num 0)"
    "sample bigCurve 128 (k - 1) = (Num (B * of_int k - B), Num 0, Num 0)"
    using assms by (simp_all add: sample_bigCurve B_def algebra_simps)
  have dx: "num_sub (Num (B * of_int k)) (Num (B * of_int k - B)) = Num B"
    using B by (simp add: num_sub_def fin_Num)
  have sq: "num_mul (Num B) (Num B) = PosInf" using B by (simp add: fin_def)
  have z: "num_sub (Num 0) (Num 0) = Num 0" "num_mul (Num 0) (Num 0) = Num 0"
    by (simp_all add: num_sub_def fin_1024)
  show ?thesis
    unfolding segment_def s distanceTo_def distanceToSquared.simps Let_def dx sq z by simp
qed

text \<open>The running sums of constant chords.\<close>

lemma cumul_zero: "cumul (Num 0) (replicate n (Num 0)) = replicate n (Num 0)"
  by (induction n) (simp_all add: fin_1024)

lemma cumul_inf:
  "s = Num a \<or> s = PosInf \<Longrightarrow> cumul s (replicate n PosInf) = replicate n PosInf"
  by (induction n arbitrary: s a) auto

lemma cumul_ones:
  "0 \<le> a \<Longrightarrow> a + int n \<le> 1024 \<Longrightarrow>
     cumul (Num (of_int a)) (replicate n (Num 1)) = map (\<lambda>k. Num (of_int k)) [a + 1..a + int n]"
proof (induction n arbitrary: a)
  case 0
  show ?case by simp
next
  case (Suc n)
  have s: "num_add (Num (of_int a)) (Num 1) = Num (of_int (a + 1))"
    using Suc.prems by (simp add: fin_1024)
  have u: "[a + 1..a + int (Suc n)] = (a + 1) # [a + 1 + 1..a + 1 + int n]"
    by (subst upto_rec1) (simp_all add: add.commute add.left_commute)
  have "cumul (Num (of_int (a + 1))) (replicate n (Num 1)) =
      map (\<lambda>k. Num (of_int k)) [a + 1 + 1..a + 1 + int n]"
    using Suc.prems by (intro Suc.IH) simp_all
  then show ?case unfolding u replicate_Suc cumul.simps s by simp
qed

lemma segments_const:
  assumes "\<And>k. 1 \<le> k \<Longrightarrow> k \<le> d \<Longrightarrow> segment c d k = v" and "0 \<le> d"
  shows "map (segment c d) [1..d] = replicate (nat d) v"
proof -
  have "map (segment c d) [1..d] = map (\<lambda>k. v) [1..d]"
    by (rule map_cong) (simp_all add: assms(1))
  also have "\<dots> = replicate (length [1..d]) v" by (rule map_replicate_const)
  finally show ?thesis using assms(2) by simp
qed

lemma cacheValid_concrete:
  "cacheValid zeroCurve" "cacheValid lineCurve" "cacheValid bigCurve"
  by (simp_all add: cacheValid_def zeroCurve_def lineCurve_def bigCurve_def)

lemma getCurveLengths_zeroCurve:
  "fst (getCurveLengths zeroCurve curveResolution) = replicate 129 (Num 0)"
proof -
  have "map (segment zeroCurve 128) [1..128] = replicate (nat 128) (Num 0)"
    by (rule segments_const) (simp_all add: segment_zeroCurve)
  then have "computeLengths zeroCurve 128 = Num 0 # replicate 128 (Num 0)"
    unfolding computeLengths_eq by (simp add: cumul_zero)
  also have "\<dots> = replicate (Suc 128) (Num 0)" by (simp only: replicate_Suc)
  finally show ?thesis
    unfolding getCurveLengths_valid [OF cacheValid_concrete(1)] curveResolution_def by simp
qed

lemma getCurveLengths_lineCurve:
  "fst (getCurveLengths lineCurve curveResolution) = lineTable"
proof -
  have "map (segment lineCurve 128) [1..128] = replicate (nat 128) (Num 1)"
    by (rule segments_const) (simp_all add: segment_lineCurve)
  moreover have "cumul (Num (of_int 0)) (replicate 128 (Num 1)) =
      map (\<lambda>k. Num (of_int k)) [0 + 1..0 + int 128]"
    by (rule cumul_ones) simp_all
  ultimately have "computeLengths lineCurve 128 =
      Num (of_int 0) # map (\<lambda>k. Num (of_int k)) [1..128]"
    unfolding computeLengths_eq by simp
  also have "\<dots> = map (\<lambda>k. Num (of_int k)) (0 # [1..128])" by (simp only: list.map)
  also have "0 # [1..128] = [0..128::int]" by (subst (2) upto_rec1) simp_all
  finally show ?thesis
    unfolding getCurveLengths_valid [OF cacheValid_concrete(2)] curveResolution_def
      lineTable_def .
qed

lemma getCurveLengths_bigCurve:
  "fst (getCurveLengths bigCurve curveResolution) = bigTable"
proof -
  have "map (segment bigCurve 128) [1..128] = replicate (nat 128) PosInf"
    by (rule segments_const) (simp_all add: segment_bigCurve)
  then have "computeLengths bigCurve 128 = Num 0 # replicate 128 PosInf"
    unfolding computeLengths_eq by (simp add: cumul_inf [of _ 0])
  then show ?thesis
    unfolding getCurveLengths_valid [OF cacheValid_concrete(3)] curveResolution_def
      bigTable_def .
qed

lemma index_map_upto:
  "index (map f [0..n]) i = (if 0 \<le> i \<and> i \<le> n then Some (f i) else None)"
  by (simp add: index_def)

lemma index_lineTable:
  "index lineTable i = (if 0 \<le> i \<and> i \<le> 128 then Some (Num (of_int i)) else None)"
  unfolding lineTable_def by (rule index_map_upto)

lemma length_lineTable: "length lineTable = 129"
  unfolding lineTable_def by (simp only: length_map length_upto)

lemma index_replicate:
  "index (replicate n x) i = (if 0 \<le> i \<and> i < int n then Some x else None)"
  by (auto simp: index_def)

lemma index_bigTable:
  "index bigTable i =
     (if i = 0 then Some (Num 0) else if 1 \<le> i \<and> i \<le> 128 then Some PosInf else None)"
proof -
  have "nat i = Suc (nat (i - 1))" if "1 \<le> i" using that by simp
  then show ?thesis by (auto simp: index_def bigTable_def)
qed

lemma length_bigTable: "length bigTable = 129"
  by (simp add: bigTable_def)

section \<open>Runs of the search on the three tables\<close>


lemma search_lineTable_128: "search lineTable (Num 128) 0 128 = 128"
  by (simp add: search.simps index_lineTable Let_def num_sub_def fin_1024)

lemma search_lineTable_0: "search lineTable (Num 0) 0 128 = 0"
  by (simp add: search.simps index_lineTable Let_def num_sub_def fin_1024)

lemma search_zeroTable: "search (replicate 129 (Num 0)) (Num 0) 0 128 = 64"
  by (simp add: search.simps index_replicate Let_def num_sub_def fin_1024)

lemma search_zeroTable_NaN: "search (replicate 129 (Num 0)) NaN 0 128 = 64"
  by (simp add: search.simps index_replicate Let_def num_sub_def)

lemma search_bigTable_NaN: "search bigTable NaN 0 128 = 64"
  by (simp add: search.simps index_bigTable Let_def num_sub_def)

lemma search_bigTable_PosInf: "search bigTable PosInf 0 128 = 64"
  by (simp add: search.simps index_bigTable Let_def num_sub_def)


section \<open>The parameter of an arc length on a curve of finite length\<close>

text \<open>
  When the last entry of the table is a number, the table is a sorted sequence of
  numbers inside the range that starts with 0.
\<close>

lemma table_Num:
  assumes "cacheValid c" and "last (fst (getCurveLengths c curveResolution)) = Num L"
  shows "\<exists>rs. fst (getCurveLengths c curveResolution) = map Num rs \<and> length rs = 129 \<and>
           sorted rs \<and> rs ! 0 = 0 \<and> last rs = L \<and> (\<forall>r\<in>set rs. 0 \<le> r \<and> r < overflowAt)"
proof -
  let ?ys = "map (segment c curveResolution) [1..curveResolution]"
  have t: "fst (getCurveLengths c curveResolution) = Num 0 # cumul (Num 0) ?ys"
    unfolding getCurveLengths_valid [OF assms(1)] computeLengths_eq ..
  have ch: "\<forall>y\<in>set ?ys. chordLike y" by (rule segment_chordLike)
  have la: "last (Num 0 # cumul (Num 0) ?ys) = Num L" using assms(2) unfolding t .
  from cumul_Num [OF ch la] obtain rs where
    rs: "Num 0 # cumul (Num 0) ?ys = map Num rs" "sorted rs" "hd rs = 0"
      "\<forall>r\<in>set rs. 0 \<le> r" "\<forall>r\<in>set (tl rs). \<bar>r\<bar> < overflowAt"
    by (elim exE conjE) (rule that; assumption)
  have l: "length rs = 129"
    using length_table_default [of c] unfolding t rs(1) by simp
  then have ne: "rs \<noteq> []" by auto
  then have s: "set rs = insert (hd rs) (set (tl rs))" by (cases rs) auto
  have "rs ! 0 = 0" using rs(3) ne by (simp add: hd_conv_nth)
  moreover have "last rs = L"
    using assms(2) ne unfolding t rs(1) by (simp add: last_map)
  moreover have "\<forall>r\<in>set rs. 0 \<le> r \<and> r < overflowAt"
    using rs(3,4,5) s overflowAt_gt_1024 by auto
  ultimately show ?thesis using t rs(1,2) l by auto
qed

lemma sorted_hd_le_last:
  fixes rs :: "real list"
  assumes "sorted rs" and "rs \<noteq> []"
  shows "hd rs \<le> last rs"
  using assms by (cases rs) auto

lemma index_last_map:
  assumes "rs \<noteq> []"
  shows "index (map Num rs) (int (length rs) - 1) = Some (Num (last rs))"
  using assms index_last [of "map Num rs"] by (simp add: last_map)

text \<open>
  C6, as the code has it. For every curve in a valid cache state whose length, the last
  entry of its table, is a finite number, and all \<open>0 \<le> u1 \<le> u2 \<le> 1\<close>,
  \<open>getCurveUtoTMapping\<close> without a distance returns numbers \<open>t1\<close> for \<open>u1\<close> and
  \<open>t2\<close> for \<open>u2\<close> with \<open>t1 \<le> t2\<close>; the second call returns the same \<open>t2\<close> on the
  curve as the first call leaves it.
\<close>

theorem getCurveUtoTMapping_monotone:
  assumes "cacheValid c" and "fst (getCurveLength c) = Some (Num L)"
    and "0 \<le> u1" and "u1 \<le> u2" and "u2 \<le> 1"
  shows "\<exists>t1 t2. fst (getCurveUtoTMapping c (Num u1) None) = Num t1 \<and>
           fst (getCurveUtoTMapping c (Num u2) None) = Num t2 \<and>
           fst (getCurveUtoTMapping (snd (getCurveUtoTMapping c (Num u1) None)) (Num u2) None) =
             Num t2 \<and>
           t1 \<le> t2"
proof -
  from assms(2) have "last (fst (getCurveLengths c curveResolution)) = Num L"
    by (simp add: getCurveLength_last)
  from table_Num [OF assms(1) this] obtain rs where
    rs: "fst (getCurveLengths c curveResolution) = map Num rs" "length rs = 129" "sorted rs"
      "rs ! 0 = 0" "\<forall>r\<in>set rs. 0 \<le> r \<and> r < overflowAt"
    by blast
  then have ne: "rs \<noteq> []" and l2: "2 \<le> length rs" by auto
  have "last rs \<in> set rs" using ne by simp
  with rs(5) have L: "0 \<le> last rs" "last rs < overflowAt" by blast+
  have range: "rs ! 0 \<le> u * last rs \<and> u * last rs \<le> last rs" if "0 \<le> u" "u \<le> 1" for u
    using that L(1) rs(4) by (simp add: mult_left_le_one_le)
  have tg: "targetArcLength (map Num rs) (Num u) None = Num (u * last rs)"
    if "0 \<le> u" "u \<le> 1" for u
  proof -
    from range [OF that] rs(4) L(2) have "\<bar>u * last rs\<bar> < overflowAt" by simp
    then show ?thesis using ne by (simp add: targetArcLength_def index_last_map fin_Num)
  qed
  from assms have u1: "0 \<le> u1" "u1 \<le> 1" and u2: "0 \<le> u2" "u2 \<le> 1" by simp_all
  from getCurveUtoTMapping_bracket [OF rs(1) tg [OF u1] _ _ rs(5)] range [OF u1]
  obtain h1 t1 where b1: "fst (getCurveUtoTMapping c (Num u1) None) = Num t1"
      "bracket rs (u1 * last rs) h1 t1"
    by blast
  from getCurveUtoTMapping_bracket [OF rs(1) tg [OF u2] _ _ rs(5)] range [OF u2]
  obtain h2 t2 where b2: "fst (getCurveUtoTMapping c (Num u2) None) = Num t2"
      "bracket rs (u2 * last rs) h2 t2"
    by blast
  have le: "u1 * last rs \<le> u2 * last rs" using assms(4) L(1) by (rule mult_right_mono)
  have "t1 \<le> t2"
  proof (cases "u1 * last rs = u2 * last rs")
    case True
    then have "targetArcLength (fst (getCurveLengths c curveResolution)) (Num u1) None =
        targetArcLength (fst (getCurveLengths c curveResolution)) (Num u2) None"
      unfolding rs(1) tg [OF u1] tg [OF u2] by simp
    from getCurveUtoTMapping_target [OF this] b1(1) b2(1) show ?thesis by simp
  next
    case False
    from order.not_eq_order_implies_strict [OF False le]
    have "u1 * last rs < u2 * last rs" .
    from bracket_mono [OF rs(3) l2 b1(2) b2(2) this] show ?thesis .
  qed
  moreover have "fst (getCurveUtoTMapping (snd (getCurveUtoTMapping c (Num u1) None)) (Num u2)
      None) = Num t2"
    using getCurveUtoTMapping_again [OF assms(1)] b2(1) by simp
  ultimately show ?thesis using b1(1) b2(1) by blast
qed

lemma getCurveLength_lineCurve: "fst (getCurveLength lineCurve) = Some (Num 128)"
  by (simp add: getCurveLength_eq getCurveLengths_lineCurve length_lineTable index_lineTable)

theorem getCurveUtoTMapping_monotone_witness:
  "\<exists>t1 t2. fst (getCurveUtoTMapping lineCurve (Num (1 / 4)) None) = Num t1 \<and>
     fst (getCurveUtoTMapping lineCurve (Num (1 / 2)) None) = Num t2 \<and> t1 \<le> t2"
proof -
  from getCurveUtoTMapping_monotone
    [OF cacheValid_concrete(2) getCurveLength_lineCurve, of "1 / 4" "1 / 2"]
  show ?thesis by auto
qed

text \<open>
  C6 as stated fails. On the straight line with control points \<open>(0,0,0)\<close>,
  \<open>(2^600,0,0)\<close>, \<open>(2^601,0,0)\<close> the squares of the chords overflow, the table is 0
  followed by infinities, and the target at \<open>u = 0\<close> is 0 times infinity: the result at
  \<open>u = 0\<close> is NaN, which is not at most the result \<open>1/2\<close> at \<open>u = 1/2\<close>.
\<close>

theorem getCurveUtoTMapping_monotone_counterexample:
  "fst (getCurveLengths bigCurve curveResolution) = Num 0 # replicate 128 PosInf \<and>
   targetArcLength (fst (getCurveLengths bigCurve curveResolution)) (Num 0) None = NaN \<and>
   fst (getCurveUtoTMapping bigCurve (Num 0) None) = NaN \<and>
   fst (getCurveUtoTMapping bigCurve (Num (1 / 2)) None) = Num (1 / 2) \<and>
   \<not> num_le (fst (getCurveUtoTMapping bigCurve (Num 0) None))
       (fst (getCurveUtoTMapping bigCurve (Num (1 / 2)) None))"
proof -
  have t: "fst (getCurveLengths bigCurve curveResolution) = Num 0 # replicate 128 PosInf"
    by (simp add: getCurveLengths_bigCurve bigTable_def)
  have tg0: "targetArcLength (fst (getCurveLengths bigCurve curveResolution)) (Num 0) None = NaN"
    by (simp add: getCurveLengths_bigCurve length_bigTable targetArcLength_def index_bigTable)
  have r0: "fst (getCurveUtoTMapping bigCurve (Num 0) None) = NaN"
    by (simp add: getCurveUtoTMapping_unfold getCurveLengths_bigCurve length_bigTable
        targetArcLength_def search_bigTable_NaN index_bigTable num_sub_def)
  have r1: "fst (getCurveUtoTMapping bigCurve (Num (1 / 2)) None) = Num (1 / 2)"
    by (simp add: getCurveUtoTMapping_unfold getCurveLengths_bigCurve length_bigTable
        targetArcLength_def search_bigTable_PosInf index_bigTable fin_1024)
  show ?thesis unfolding r0 r1 using t tg0 by simp
qed






text \<open>
  C3 at a supplied distance of 0. The test \<open>if (distance)\<close> takes 0 for an absent
  distance: the call returns what it returns without a distance, for every curve and
  \<open>u\<close>. On the line of length 128 with \<open>u = 1\<close> the target is 128 and the result 1,
  where the target 0 gives 0.
\<close>

theorem getCurveUtoTMapping_zero_distance:
  "fst (getCurveUtoTMapping c u (Some (Num 0))) = fst (getCurveUtoTMapping c u None) \<and>
   targetArcLength (fst (getCurveLengths lineCurve curveResolution)) (Num 1) (Some (Num 0)) =
     Num 128 \<and>
   fst (getCurveUtoTMapping lineCurve (Num 1) (Some (Num 0))) = Num 1 \<and>
   fst (getCurveUtoTMapping lineCurve (Num 0) None) = Num 0"
proof -
  have "fst (getCurveUtoTMapping c u (Some (Num 0))) = fst (getCurveUtoTMapping c u None)"
    by (rule getCurveUtoTMapping_target) (simp add: targetArcLength_def)
  moreover have "targetArcLength (fst (getCurveLengths lineCurve curveResolution)) (Num 1)
      (Some (Num 0)) = Num 128"
    by (simp add: getCurveLengths_lineCurve length_lineTable targetArcLength_def
        index_lineTable fin_1024)
  moreover have "fst (getCurveUtoTMapping lineCurve (Num 1) (Some (Num 0))) = Num 1"
    by (simp add: getCurveUtoTMapping_unfold getCurveLengths_lineCurve length_lineTable
        targetArcLength_def search_lineTable_128 index_lineTable fin_1024)
  moreover have "fst (getCurveUtoTMapping lineCurve (Num 0) None) = Num 0"
    by (simp add: getCurveUtoTMapping_unfold getCurveLengths_lineCurve length_lineTable
        targetArcLength_def search_lineTable_0 index_lineTable fin_1024)
  ultimately show ?thesis by simp
qed

section \<open>Equal entries around the end of the search\<close>

text \<open>
  C4, as the code has it. For every curve, whatever its cache holds, and every target
  that is not NaN: when the entries at the index \<open>i\<close> where the search ends and at
  \<open>i + 1\<close> are equal, the entry at \<open>i\<close> is the target, so that the function takes its
  early return and the result is \<open>i\<close> over the table length minus 1; the division by
  the difference of the two entries is not reached.
\<close>

theorem getCurveUtoTMapping_zero_segment:
  assumes "ls = fst (getCurveLengths c curveResolution)"
    and "t = targetArcLength ls u distance" and "t \<noteq> NaN"
    and "i = search ls t 0 (int (length ls) - 1)"
    and "index ls i = Some a" and "index ls (i + 1) = Some b" and "strict_eq a b"
  shows "strict_eq_opt (index ls i) t \<and>
         fst (getCurveUtoTMapping c u distance) =
           Num (real_of_int i / real_of_int (int (length ls) - 1))"
proof -
  from assms(5,6) have ir: "0 \<le> i" "i + 1 < int (length ls)"
    and ab: "a = ls ! nat i" "b = ls ! nat (i + 1)"
    unfolding index_def by (auto split: if_splits)
  from assms(7) have eq: "a = b" "a \<noteq> NaN" by (auto simp: strict_eq_iff)
  from search_post_gen [of 0 "int (length ls) - 1" ls t] assms(4)
  have "(0 \<le> i \<and> \<not> below t (ls ! nat i) \<and> \<not> above t (ls ! nat i)) \<or>
      ((0 \<le> i \<longrightarrow> below t (ls ! nat i)) \<and>
       (i + 1 < int (length ls) \<longrightarrow> above t (ls ! nat (i + 1))))"
    by simp
  then have "\<not> below t a \<and> \<not> above t a"
  proof
    assume "0 \<le> i \<and> \<not> below t (ls ! nat i) \<and> \<not> above t (ls ! nat i)"
    then show ?thesis using ab(1) by simp
  next
    assume "(0 \<le> i \<longrightarrow> below t (ls ! nat i)) \<and>
      (i + 1 < int (length ls) \<longrightarrow> above t (ls ! nat (i + 1)))"
    with ir ab eq(1) have "below t a" "above t a" by simp_all
    with not_below_and_above show ?thesis by blast
  qed
  with neither_below_nor_above [OF eq(2) assms(3)] have ex: "strict_eq a t" by blast
  then have "strict_eq_opt (index ls i) t" using assms(5) by simp
  moreover have "strict_eq (ls ! nat i) t" using ex ab(1) by simp
  from getCurveUtoTMapping_early [OF assms(1,2,4) ir(1) _ this] ir(2)
  have "fst (getCurveUtoTMapping c u distance) =
      Num (real_of_int i / real_of_int (int (length ls) - 1))"
    by simp
  ultimately show ?thesis by simp
qed

theorem getCurveUtoTMapping_zero_segment_witness:
  "fst (getCurveUtoTMapping zeroCurve (Num (1 / 2)) None) = Num (1 / 2)"
proof -
  let ?ls = "fst (getCurveLengths zeroCurve curveResolution)"
  have tg: "Num 0 = targetArcLength ?ls (Num (1 / 2)) None"
    by (simp add: targetArcLength_def getCurveLengths_zeroCurve index_replicate fin_1024)
  have s: "64 = search ?ls (Num 0) 0 (int (length ?ls) - 1)"
    by (simp add: getCurveLengths_zeroCurve search_zeroTable)
  have i: "index ?ls 64 = Some (Num 0)" "index ?ls (64 + 1) = Some (Num 0)"
    by (simp_all add: getCurveLengths_zeroCurve index_replicate)
  have "Num 0 \<noteq> NaN" "strict_eq (Num 0) (Num 0)" by simp_all
  from getCurveUtoTMapping_zero_segment [OF refl tg this(1) s i this(2)]
  show ?thesis by (simp add: getCurveLengths_zeroCurve)
qed

text \<open>
  C4 as stated fails when the target is NaN. On the line whose chords have squares
  beyond the range, at \<open>u = 0\<close>, the target is 0 times infinity; the search stops at
  index 64, the entries at 64 and 65 are both the positive infinity, and the result is
  NaN, not \<open>64/128\<close>. On the curve that is a single point, with \<open>u\<close> NaN, the entries at
  64 and 65 are both 0 and the result is NaN.
\<close>

theorem getCurveUtoTMapping_zero_segment_counterexample:
  "search (fst (getCurveLengths bigCurve curveResolution))
     (targetArcLength (fst (getCurveLengths bigCurve curveResolution)) (Num 0) None) 0
     (int (length (fst (getCurveLengths bigCurve curveResolution))) - 1) = 64 \<and>
   index (fst (getCurveLengths bigCurve curveResolution)) 64 = Some PosInf \<and>
   index (fst (getCurveLengths bigCurve curveResolution)) (64 + 1) = Some PosInf \<and>
   strict_eq PosInf PosInf \<and>
   fst (getCurveUtoTMapping bigCurve (Num 0) None) = NaN \<and>
   search (fst (getCurveLengths zeroCurve curveResolution))
     (targetArcLength (fst (getCurveLengths zeroCurve curveResolution)) NaN None) 0
     (int (length (fst (getCurveLengths zeroCurve curveResolution))) - 1) = 64 \<and>
   index (fst (getCurveLengths zeroCurve curveResolution)) 64 = Some (Num 0) \<and>
   index (fst (getCurveLengths zeroCurve curveResolution)) (64 + 1) = Some (Num 0) \<and>
   strict_eq (Num 0) (Num 0) \<and>
   fst (getCurveUtoTMapping zeroCurve NaN None) = NaN"
proof -
  have tb: "targetArcLength bigTable (Num 0) None = NaN"
    by (simp add: length_bigTable targetArcLength_def index_bigTable)
  have tz: "targetArcLength (replicate 129 (Num 0)) NaN None = NaN"
    by (simp add: targetArcLength_def)
  have "fst (getCurveUtoTMapping bigCurve (Num 0) None) = NaN"
    by (simp add: getCurveUtoTMapping_unfold getCurveLengths_bigCurve length_bigTable
        tb search_bigTable_NaN index_bigTable num_sub_def)
  moreover have "fst (getCurveUtoTMapping zeroCurve NaN None) = NaN"
    by (simp add: getCurveUtoTMapping_unfold getCurveLengths_zeroCurve
        tz search_zeroTable_NaN index_replicate num_sub_def)
  ultimately show ?thesis
    by (simp add: getCurveLengths_bigCurve getCurveLengths_zeroCurve length_bigTable tb tz
        search_bigTable_NaN search_zeroTable_NaN index_bigTable index_replicate)
qed

end
